theory Spec2Isabelle
  imports Main "HOL-Library.Sublist"
begin

section \<open>Strings and POSIX paths\<close>

text \<open>
  JavaScript strings are modelled as \<^typ>\<open>string\<close> (character lists); \<open>startsWith\<close>,
  \<open>endsWith\<close> and \<open>slice\<close> become list prefix, suffix, \<^const>\<open>take\<close> and \<^const>\<open>drop\<close>.
  The resolver calls Node's \<open>path.normalize\<close>, \<open>path.dirname\<close> and \<open>path.resolve\<close>; they are
  library code, modelled here in their POSIX variant at the level of path segments:
  \<open>normalizeString\<close> drops empty and \<open>.\<close> segments, lets \<open>..\<close> remove the segment before it, and
  keeps a leading \<open>..\<close> only for relative paths. \<open>path.resolve\<close> falls back on the process
  working directory, which is an explicit argument \<open>cwd\<close> of the model.
\<close>

definition startsWith :: "string \<Rightarrow> string \<Rightarrow> bool" where
  "startsWith s p = prefix p s"

definition endsWith :: "string \<Rightarrow> string \<Rightarrow> bool" where
  "endsWith s p = suffix p s"

definition strip_glob_suffix :: "string \<Rightarrow> string" where
  "strip_glob_suffix s = (if endsWith s ''/*'' then take (length s - 2) s else s)"

fun split_sep :: "string \<Rightarrow> string list" where
  "split_sep [] = [[]]"
| "split_sep (c # cs) =
     (if c = CHR ''/'' then [] # split_sep cs
      else (case split_sep cs of [] \<Rightarrow> [[c]] | w # ws \<Rightarrow> (c # w) # ws))"

fun join_sep :: "string list \<Rightarrow> string" where
  "join_sep [] = []"
| "join_sep [w] = w"
| "join_sep (w # ws) = w @ ''/'' @ join_sep ws"

fun normalize_segment :: "bool \<Rightarrow> string list \<Rightarrow> string \<Rightarrow> string list" where
  "normalize_segment allowAboveRoot res seg =
     (if seg = [] \<or> seg = ''.'' then res
      else if seg = ''..'' then
        (if res \<noteq> [] \<and> last res \<noteq> ''..'' then butlast res
         else if allowAboveRoot then res @ [''..''] else res)
      else res @ [seg])"

definition normalizeString :: "string \<Rightarrow> bool \<Rightarrow> string" where
  "normalizeString path allowAboveRoot =
     join_sep (foldl (normalize_segment allowAboveRoot) [] (split_sep path))"

definition isAbsolute :: "string \<Rightarrow> bool" where
  "isAbsolute path = (case path of [] \<Rightarrow> False | c # _ \<Rightarrow> c = CHR ''/'')"

definition path_normalize :: "string \<Rightarrow> string" where
  "path_normalize path =
     (if path = [] then ''.''
      else let trailingSeparator = (last path = CHR ''/'');
               p = normalizeString path (\<not> isAbsolute path)
           in if p = [] then (if isAbsolute path then ''/'' else if trailingSeparator then ''./'' else ''.'')
              else (if isAbsolute path then ''/'' else []) @ p @ (if trailingSeparator then ''/'' else []))"

definition path_dirname :: "string \<Rightarrow> string" where
  "path_dirname path =
     (if path = [] then ''.''
      else let rest = dropWhile (\<lambda>c. c \<noteq> CHR ''/'') (dropWhile (\<lambda>c. c = CHR ''/'') (rev (tl path)));
               end = length rest
           in if rest = [] then (if isAbsolute path then ''/'' else ''.'')
              else if isAbsolute path \<and> end = 1 then ''//''
              else take end path)"

fun resolve_join :: "string list \<Rightarrow> string \<times> bool" where
  "resolve_join [] = ([], False)"
| "resolve_join (a # as) =
     (case resolve_join as of
        (p, True) \<Rightarrow> (p, True)
      | (p, False) \<Rightarrow> if a = [] then (p, False) else (a @ ''/'' @ p, isAbsolute a))"

definition path_resolve :: "string \<Rightarrow> string list \<Rightarrow> string" where
  "path_resolve cwd args =
     (case resolve_join (cwd # args) of
        (p, True) \<Rightarrow> CHR ''/'' # normalizeString p False
      | (p, False) \<Rightarrow> (let r = normalizeString p True in if r \<noteq> [] then r else ''.''))"

section \<open>Alias table and longest-prefix match\<close>

text \<open>
  \<open>PathResolverState.pathMappings\<close> is a JavaScript \<open>Map\<close>, iterated in insertion order, so it is
  an association list here; \<open>aliasLookup\<close> is only read by key and is a partial function.
  \<open>findBestMatch\<close> is the double loop of the source with the accumulator
  \<open>(bestMatch, bestMatchLength)\<close>, starting from \<open>(null, 0)\<close>.
\<close>

record PathMapping =
  "alias" :: string
  basePath :: string
  resolvedBase :: string

record PathResolverState =
  pathMappings :: "(string \<times> PathMapping list) list"
  aliasLookup :: "string \<Rightarrow> string option"

definition normalized_base :: "PathMapping \<Rightarrow> string" where
  "normalized_base mapping = path_normalize (strip_glob_suffix (resolvedBase mapping))"

definition best_step :: "string \<Rightarrow> PathMapping option \<times> nat \<Rightarrow> PathMapping \<Rightarrow> PathMapping option \<times> nat" where
  "best_step normalizedPath acc mapping =
     (let rb = normalized_base mapping
      in if startsWith normalizedPath rb \<and> length rb > snd acc then (Some mapping, length rb) else acc)"

definition findBestMatch :: "PathResolverState \<Rightarrow> string \<Rightarrow> PathMapping option" where
  "findBestMatch state absolutePath =
     fst (foldl (\<lambda>acc (key, mappings). foldl (best_step (path_normalize absolutePath)) acc mappings)
            (None, 0) (pathMappings state))"

definition all_mappings :: "PathResolverState \<Rightarrow> PathMapping list" where
  "all_mappings state = concat (map snd (pathMappings state))"

definition qualifies :: "string \<Rightarrow> PathMapping \<Rightarrow> bool" where
  "qualifies absolutePath mapping = prefix (normalized_base mapping) (path_normalize absolutePath)"

definition example_state :: PathResolverState where
  "example_state = \<lparr> pathMappings =
      [(''@'', [\<lparr> alias = ''@/*'', basePath = ''./src/*'', resolvedBase = ''/p/src'' \<rparr>]),
       (''@components'', [\<lparr> alias = ''@components/*'', basePath = ''./src/components/*'',
                            resolvedBase = ''/p/src/components'' \<rparr>])],
     aliasLookup = Map.empty \<rparr>"

definition best_inv :: "string \<Rightarrow> PathMapping list \<Rightarrow> PathMapping option \<times> nat \<Rightarrow> bool" where
  "best_inv p ms acc =
     (case fst acc of
        None \<Rightarrow> snd acc = 0 \<and> (\<forall>m \<in> set ms. \<not> qualifies p m)
      | Some b \<Rightarrow> snd acc = length (normalized_base b) \<and>
          (\<exists>i < length ms. ms ! i = b \<and> qualifies p b \<and>
             (\<forall>j < length ms. qualifies p (ms ! j) \<longrightarrow> length (normalized_base (ms ! j)) \<le> length (normalized_base b)) \<and>
             (\<forall>j < i. qualifies p (ms ! j) \<longrightarrow> length (normalized_base (ms ! j)) < length (normalized_base b))))"




text \<open>
  \<open>resolveImport\<close> reads and writes the module-level \<open>resolveCache\<close>, an \<open>LRUCache\<close> of
  capacity 1000 that is shared by every resolver state. The cache is an argument and a
  result of the model: an association list from most to least recently used, in which \<open>get\<close>
  moves a hit to the front and \<open>set\<close> of a new key drops the last entry when the list is full.
  Inside the \<open>try\<close> block only the explicit \<open>throw\<close> for an empty \<open>fromFile\<close> can raise, so the
  \<open>catch\<close> branch is that case. The two early returns of the \<open>try\<close> block do not call
  \<open>resolveCache.set\<close>.
\<close>

record ConversionResult =
  originalImport :: string
  convertedImport :: "string option"
  reason :: "string option"

type_synonym resolve_cache = "(string \<times> ConversionResult) list"

definition cache_capacity :: nat where
  "cache_capacity = 1000"

definition lru_get :: "resolve_cache \<Rightarrow> string \<Rightarrow> ConversionResult option \<times> resolve_cache" where
  "lru_get cache key =
     (case map_of cache key of
        None \<Rightarrow> (None, cache)
      | Some v \<Rightarrow> (Some v, (key, v) # filter (\<lambda>e. fst e \<noteq> key) cache))"

definition lru_set :: "resolve_cache \<Rightarrow> string \<Rightarrow> ConversionResult \<Rightarrow> resolve_cache" where
  "lru_set cache key v =
     (if key \<in> fst ` set cache then (key, v) # filter (\<lambda>e. fst e \<noteq> key) cache
      else (key, v) # (if length cache \<ge> cache_capacity then butlast cache else cache))"

definition is_space :: "char \<Rightarrow> bool" where
  "is_space c = ((of_char c :: nat) \<in> {9, 10, 11, 12, 13, 32, 160})"

definition trim :: "string \<Rightarrow> string" where
  "trim s = rev (dropWhile is_space (rev (dropWhile is_space s)))"

definition convertToAlias :: "string \<Rightarrow> PathMapping \<Rightarrow> string option" where
  "convertToAlias absolutePath mapping =
     (let normalizedPath = path_normalize absolutePath;
          resolvedBase = path_normalize (strip_glob_suffix (resolvedBase mapping))
      in if \<not> startsWith normalizedPath resolvedBase then None
         else let relativePart = drop (length resolvedBase) normalizedPath;
                  cleanRelativePart = (if startsWith relativePart ''/'' then drop 1 relativePart else relativePart);
                  aliasBase = strip_glob_suffix (alias mapping)
              in if cleanRelativePart = [] then Some aliasBase
                 else Some (aliasBase @ ''/'' @ cleanRelativePart))"

definition resolveImport ::
  "string \<Rightarrow> resolve_cache \<Rightarrow> PathResolverState \<Rightarrow> string \<Rightarrow> string \<Rightarrow> ConversionResult \<times> resolve_cache" where
  "resolveImport cwd cache state importPath fromFile =
     (if \<not> startsWith importPath ''./'' \<and> \<not> startsWith importPath ''../'' then
        (\<lparr> originalImport = importPath, convertedImport = None,
            reason = Some ''Not a relative import'' \<rparr>, cache)
      else
        let cacheKey = fromFile @ '':'' @ importPath in
        case lru_get cache cacheKey of
          (Some cached, cache1) \<Rightarrow> (cached, cache1)
        | (None, cache1) \<Rightarrow>
            if fromFile = [] \<or> trim fromFile = [] then
              (let result = \<lparr> originalImport = importPath, convertedImport = None,
                     reason = Some ''Error during conversion: fromFile parameter cannot be empty'' \<rparr>
               in (result, lru_set cache1 cacheKey result))
            else
              let fromDir = path_dirname fromFile;
                  absolutePath = path_resolve cwd [fromDir, importPath]
              in case findBestMatch state absolutePath of
                   None \<Rightarrow>
                     (\<lparr> originalImport = importPath, convertedImport = None,
                         reason = Some ''No matching path alias found'' \<rparr>, cache1)
                 | Some bestMatch \<Rightarrow>
                     (case convertToAlias absolutePath bestMatch of
                        None \<Rightarrow>
                          (\<lparr> originalImport = importPath, convertedImport = None,
                              reason = Some ''Failed to convert to alias format'' \<rparr>, cache1)
                      | Some converted \<Rightarrow>
                          if converted = [] then
                            (\<lparr> originalImport = importPath, convertedImport = None,
                                reason = Some ''Failed to convert to alias format'' \<rparr>, cache1)
                          else
                            (let result = \<lparr> originalImport = importPath, convertedImport = Some converted,
                                   reason = Some (''Converted using alias '' @ [CHR 0x27] @ alias bestMatch @ [CHR 0x27]) \<rparr>
                             in (result, lru_set cache1 cacheKey result))))"

definition is_relative_import :: "string \<Rightarrow> bool" where
  "is_relative_import importPath = (startsWith importPath ''./'' \<or> startsWith importPath ''../'')"

definition no_alias_state :: PathResolverState where
  "no_alias_state = \<lparr> pathMappings = [], aliasLookup = Map.empty \<rparr>"

definition src_alias_state :: PathResolverState where
  "src_alias_state = \<lparr> pathMappings =
      [(''@'', [\<lparr> alias = ''@/*'', basePath = ''./src/*'', resolvedBase = ''/p/src'' \<rparr>])],
     aliasLookup = Map.empty \<rparr>"

definition at_alias_converted :: ConversionResult where
  "at_alias_converted =
     \<lparr> originalImport = ''./x'', convertedImport = Some ''@/x'',
       reason = Some (''Converted using alias '' @ [CHR 0x27] @ ''@/*'' @ [CHR 0x27]) \<rparr>"




section \<open>Ignore patterns\<close>

text \<open>
  A JavaScript \<open>RegExp\<close> is a source string and the \<open>i\<close> flag. \<open>compilePatterns\<close> builds the
  source by string replacement, exactly as below; \<open>rx_parse\<close> reads the sources that can come
  out of it (escaped characters, the fragments \<open>.*\<close>, \<open>[^/]*\<close>, \<open>[^/]\<close>, \<open>(^|/)\<close>, \<open>(/.*)?\<close>,
  the anchors, and the never-matching \<open>$.^\<close>), and \<open>rx_match\<close> decides whether the items match
  at a position. \<open>RegExp.test\<close> is an unanchored search for a match; only its truth value is
  used, so alternatives are a disjunction. Without the \<open>m\<close> flag \<open>^\<close> matches at index 0 only
  (the flag \<open>atStart\<close>) and \<open>$\<close> at the end only; \<open>.\<close> does not match a line terminator.
\<close>

fun replace_all :: "string \<Rightarrow> string \<Rightarrow> string \<Rightarrow> string" where
  "replace_all pat rep [] = []"
| "replace_all pat rep (c # cs) =
     (if pat \<noteq> [] \<and> prefix pat (c # cs) then rep @ replace_all pat rep (drop (length pat - 1) cs)
      else c # replace_all pat rep cs)"

definition regex_special :: "char \<Rightarrow> bool" where
  "regex_special c = (c \<in> set ''.+^${}()|[]'' \<or> c = CHR 0x5C)"

definition escape_special :: "string \<Rightarrow> string" where
  "escape_special s = concat (map (\<lambda>c. if regex_special c then [CHR 0x5C, c] else [c]) s)"

record RegExp =
  source :: string
  ignoreCase :: bool

datatype rx_item =
    RLit char
  | RDot
  | RAnyStar
  | RSegStar
  | RSegOne
  | RBol
  | REol
  | RStartOrSlash
  | ROptDir

fun rx_parse :: "string \<Rightarrow> rx_item list option" where
  "rx_parse [] = Some []"
| "rx_parse (c # cs) =
     (if prefix ''(/.*)?'' (c # cs) then map_option ((#) ROptDir) (rx_parse (drop 5 cs))
      else if prefix ''(^|/)'' (c # cs) then map_option ((#) RStartOrSlash) (rx_parse (drop 4 cs))
      else if prefix ''[^/]*'' (c # cs) then map_option ((#) RSegStar) (rx_parse (drop 4 cs))
      else if prefix ''[^/]'' (c # cs) then map_option ((#) RSegOne) (rx_parse (drop 3 cs))
      else if prefix ''.*'' (c # cs) then map_option ((#) RAnyStar) (rx_parse (drop 1 cs))
      else if c = CHR ''.'' then map_option ((#) RDot) (rx_parse cs)
      else if c = CHR ''^'' then map_option ((#) RBol) (rx_parse cs)
      else if c = CHR ''$'' then map_option ((#) REol) (rx_parse cs)
      else if c = CHR 0x5C then
        (case cs of
           [] \<Rightarrow> None
         | e # es \<Rightarrow> if regex_special e then map_option ((#) (RLit e)) (rx_parse es) else None)
      else if regex_special c \<or> c = CHR ''*'' \<or> c = CHR ''?'' then None
      else map_option ((#) (RLit c)) (rx_parse cs))"

definition canonicalize :: "bool \<Rightarrow> char \<Rightarrow> char" where
  "canonicalize ic c =
     (let n = (of_char c :: nat)
      in if ic \<and> ((97 \<le> n \<and> n \<le> 122) \<or> (224 \<le> n \<and> n \<le> 254 \<and> n \<noteq> 247))
         then char_of (n - 32) else c)"

definition line_terminator :: "char \<Rightarrow> bool" where
  "line_terminator c = ((of_char c :: nat) = 10 \<or> (of_char c :: nat) = 13)"

fun rx_match :: "bool \<Rightarrow> rx_item list \<Rightarrow> bool \<Rightarrow> string \<Rightarrow> bool" where
  "rx_match ic [] atStart s = True"
| "rx_match ic (RLit c # r) atStart s =
     (case s of [] \<Rightarrow> False | x # xs \<Rightarrow> canonicalize ic x = canonicalize ic c \<and> rx_match ic r False xs)"
| "rx_match ic (RDot # r) atStart s =
     (case s of [] \<Rightarrow> False | x # xs \<Rightarrow> \<not> line_terminator x \<and> rx_match ic r False xs)"
| "rx_match ic (RSegOne # r) atStart s =
     (case s of [] \<Rightarrow> False | x # xs \<Rightarrow> x \<noteq> CHR ''/'' \<and> rx_match ic r False xs)"
| "rx_match ic (RAnyStar # r) atStart s =
     (rx_match ic r atStart s \<or>
      (case s of [] \<Rightarrow> False | x # xs \<Rightarrow> \<not> line_terminator x \<and> rx_match ic (RAnyStar # r) False xs))"
| "rx_match ic (RSegStar # r) atStart s =
     (rx_match ic r atStart s \<or>
      (case s of [] \<Rightarrow> False | x # xs \<Rightarrow> x \<noteq> CHR ''/'' \<and> rx_match ic (RSegStar # r) False xs))"
| "rx_match ic (RBol # r) atStart s = (atStart \<and> rx_match ic r atStart s)"
| "rx_match ic (REol # r) atStart s = (s = [] \<and> rx_match ic r atStart s)"
| "rx_match ic (RStartOrSlash # r) atStart s =
     ((atStart \<and> rx_match ic r atStart s) \<or>
      (case s of [] \<Rightarrow> False | x # xs \<Rightarrow> x = CHR ''/'' \<and> rx_match ic r False xs))"
| "rx_match ic (ROptDir # r) atStart s =
     ((case s of [] \<Rightarrow> False | x # xs \<Rightarrow> x = CHR ''/'' \<and> rx_match ic (RAnyStar # r) False xs) \<or>
      rx_match ic r atStart s)"

fun rx_search :: "bool \<Rightarrow> rx_item list \<Rightarrow> bool \<Rightarrow> string \<Rightarrow> bool" where
  "rx_search ic items atStart [] = rx_match ic items atStart []"
| "rx_search ic items atStart (x # xs) =
     (rx_match ic items atStart (x # xs) \<or> rx_search ic items False xs)"

definition RegExp_test :: "RegExp \<Rightarrow> string \<Rightarrow> bool" where
  "RegExp_test re s =
     (case rx_parse (source re) of None \<Rightarrow> False | Some items \<Rightarrow> rx_search (ignoreCase re) items True s)"

definition never_regexp :: RegExp where
  "never_regexp = \<lparr> source = ''$.^'', ignoreCase = False \<rparr>"

definition compilePattern :: "string \<Rightarrow> RegExp" where
  "compilePattern pattern =
     (let isNegation = startsWith pattern ''!'';
          cleanPattern = (if isNegation then drop 1 pattern else pattern)
      in if trim cleanPattern = [] \<or> cleanPattern = ''**'' \<or> cleanPattern = ''***'' then never_regexp
         else
           let isAbsolutePattern = startsWith cleanPattern ''/'';
               regexPattern0 = (if isAbsolutePattern then drop 1 cleanPattern else cleanPattern);
               regexPattern1 =
                 replace_all ''__QUESTION__'' ''[^/]''
                   (replace_all ''__SINGLESTAR__'' ''[^/]*''
                     (replace_all ''__DOUBLESTAR__'' ''.*''
                       (escape_special
                         (replace_all ''?'' ''__QUESTION__''
                           (replace_all ''*'' ''__SINGLESTAR__''
                             (replace_all ''**'' ''__DOUBLESTAR__'' regexPattern0))))));
               regexPattern2 =
                 (if endsWith cleanPattern ''/'' then butlast regexPattern1 @ ''(/.*)?'' else regexPattern1);
               regexPattern3 =
                 (if isAbsolutePattern then ''^'' @ regexPattern2 @ ''$''
                  else if CHR ''/'' \<in> set cleanPattern then ''(^|/)'' @ regexPattern2 @ ''$''
                  else ''(^|/)'' @ regexPattern2 @ ''(/.*)?$'')
           in if rx_parse regexPattern3 = None then never_regexp
              else \<lparr> source = regexPattern3, ignoreCase = True \<rparr>)"

definition compilePatterns :: "string list \<Rightarrow> RegExp list" where
  "compilePatterns patterns = map compilePattern patterns"

record IgnoreState =
  patterns :: "RegExp list"
  originalPatterns :: "string list"
  ignoreDirectories :: "bool option"

record IgnoreCheckResult =
  shouldIgnoreFlag :: bool
  matchedPattern :: "string option"
  ignoreReason :: "string option"

fun ignore_loop ::
  "RegExp list \<Rightarrow> string list \<Rightarrow> string \<Rightarrow> IgnoreCheckResult option \<Rightarrow> IgnoreCheckResult option option" where
  "ignore_loop [] originals cleanPath lastMatch = Some lastMatch"
| "ignore_loop (pattern # ps) [] cleanPath lastMatch = None"
| "ignore_loop (pattern # ps) (originalPattern # os) cleanPath lastMatch =
     ignore_loop ps os cleanPath
       (if RegExp_test pattern cleanPath then
          (if startsWith originalPattern ''!'' then
             Some \<lparr> shouldIgnoreFlag = False, matchedPattern = Some originalPattern,
                    ignoreReason = Some (''Negation pattern '' @ [CHR 0x22] @ originalPattern @ [CHR 0x22] @ '' matched'') \<rparr>
           else
             Some \<lparr> shouldIgnoreFlag = True, matchedPattern = Some originalPattern,
                    ignoreReason = Some (''Pattern '' @ [CHR 0x22] @ originalPattern @ [CHR 0x22] @ '' matched'') \<rparr>)
        else lastMatch)"

definition clean_path :: "string \<Rightarrow> string" where
  "clean_path filePath =
     (let normalizedPath = map (\<lambda>c. if c = CHR 0x5C then CHR ''/'' else c) filePath
      in if startsWith normalizedPath ''/'' then drop 1 normalizedPath else normalizedPath)"

definition shouldIgnore :: "IgnoreState \<Rightarrow> string \<Rightarrow> IgnoreCheckResult option" where
  "shouldIgnore state filePath =
     (case ignore_loop (patterns state) (originalPatterns state) (clean_path filePath) None of
        None \<Rightarrow> None
      | Some None \<Rightarrow>
          Some \<lparr> shouldIgnoreFlag = False, matchedPattern = None,
                 ignoreReason = Some ''No ignore patterns matched'' \<rparr>
      | Some (Some lastMatch) \<Rightarrow> Some lastMatch)"

definition compiled_state :: "string list \<Rightarrow> IgnoreState" where
  "compiled_state ps = \<lparr> patterns = compilePatterns ps, originalPatterns = ps, ignoreDirectories = None \<rparr>"

definition negation_result :: "string \<Rightarrow> IgnoreCheckResult" where
  "negation_result originalPattern =
     \<lparr> shouldIgnoreFlag = False, matchedPattern = Some originalPattern,
       ignoreReason = Some (''Negation pattern '' @ [CHR 0x22] @ originalPattern @ [CHR 0x22] @ '' matched'') \<rparr>"

definition pattern_result :: "string \<Rightarrow> IgnoreCheckResult" where
  "pattern_result originalPattern =
     \<lparr> shouldIgnoreFlag = True, matchedPattern = Some originalPattern,
       ignoreReason = Some (''Pattern '' @ [CHR 0x22] @ originalPattern @ [CHR 0x22] @ '' matched'') \<rparr>"

definition no_match_result :: IgnoreCheckResult where
  "no_match_result =
     \<lparr> shouldIgnoreFlag = False, matchedPattern = None, ignoreReason = Some ''No ignore patterns matched'' \<rparr>"

definition match_result :: "string \<Rightarrow> IgnoreCheckResult" where
  "match_result originalPattern =
     (if startsWith originalPattern ''!'' then negation_result originalPattern
      else pattern_result originalPattern)"

definition last_matching :: "string list \<Rightarrow> string \<Rightarrow> string option" where
  "last_matching ps cleanPath = find (\<lambda>q. RegExp_test (compilePattern q) cleanPath) (rev ps)"

definition strip_negation :: "string \<Rightarrow> string" where
  "strip_negation pattern = (if startsWith pattern ''!'' then drop 1 pattern else pattern)"

section \<open>Import matches and the rewrite engine\<close>

text \<open>
  \<open>ImportMatch\<close> offsets are non-negative integers, so \<open>content.slice(0, start)\<close> and
  \<open>content.slice(end)\<close> are \<^const>\<open>take\<close> and \<^const>\<open>drop\<close> (both clamp at the length, as
  \<open>slice\<close> does). The optional field \<open>importBinding\<close> is never written or read and is left
  out. \<open>String.prototype.replace\<close> with a string pattern replaces the first occurrence only,
  and expands the patterns \<open>$$\<close>, \<open>$&\<close>, \<open>$`\<close> and \<open>$'\<close> of the replacement text
  (\<open>get_substitution\<close>; with no capture groups \<open>$1\<close> stays as it is). The \<open>Map\<close> from original
  to converted literal is a list of pairs with the latest \<open>set\<close> in front, read with
  \<^const>\<open>map_of\<close>; an empty or \<open>null\<close> converted literal is falsy and adds nothing.
  \<open>Array.prototype.sort\<close> is stable, and so is \<^const>\<open>sort_key\<close>; descending order of
  \<open>startIndex\<close> is ascending order of its negation.
\<close>

datatype ImportType = es6 | commonjs | dynamic

record ImportMatch =
  fullMatch :: string
  importPath :: string
  startIndex :: nat
  endIndex :: nat
  importType :: ImportType

fun index_of :: "string \<Rightarrow> string \<Rightarrow> nat option" where
  "index_of pat [] = (if pat = [] then Some 0 else None)"
| "index_of pat (c # cs) = (if prefix pat (c # cs) then Some 0 else map_option Suc (index_of pat cs))"

definition str_includes :: "string \<Rightarrow> string \<Rightarrow> bool" where
  "str_includes s pat = (index_of pat s \<noteq> None)"

fun get_substitution :: "string \<Rightarrow> string \<Rightarrow> string \<Rightarrow> string \<Rightarrow> string" where
  "get_substitution matched pre post [] = []"
| "get_substitution matched pre post [c] = [c]"
| "get_substitution matched pre post (c # d # r) =
     (if c = CHR ''$'' then
        (if d = CHR ''$'' then CHR ''$'' # get_substitution matched pre post r
         else if d = CHR ''&'' then matched @ get_substitution matched pre post r
         else if d = CHR 0x60 then pre @ get_substitution matched pre post r
         else if d = CHR 0x27 then post @ get_substitution matched pre post r
         else CHR ''$'' # get_substitution matched pre post (d # r))
      else c # get_substitution matched pre post (d # r))"

definition js_replace :: "string \<Rightarrow> string \<Rightarrow> string \<Rightarrow> string" where
  "js_replace s searchString replaceValue =
     (case index_of searchString s of
        None \<Rightarrow> s
      | Some pos \<Rightarrow>
          take pos s
          @ get_substitution searchString (take pos s) (drop (pos + length searchString) s) replaceValue
          @ drop (pos + length searchString) s)"

definition replaceImportPathInStatement :: "string \<Rightarrow> string \<Rightarrow> string \<Rightarrow> string" where
  "replaceImportPathInStatement statement originalPath newPath =
     (let quoteChar =
            (if str_includes statement ([CHR 0x27] @ originalPath @ [CHR 0x27]) then CHR 0x27
             else if str_includes statement ([CHR 0x22] @ originalPath @ [CHR 0x22]) then CHR 0x22
             else if str_includes statement ([CHR 0x60] @ originalPath @ [CHR 0x60]) then CHR 0x60
             else CHR 0x22);
          quotedOriginal = [quoteChar] @ originalPath @ [quoteChar];
          quotedNew = [quoteChar] @ newPath @ [quoteChar]
      in js_replace statement quotedOriginal quotedNew)"

definition add_conversion :: "(string \<times> string) list \<Rightarrow> ConversionResult \<Rightarrow> (string \<times> string) list" where
  "add_conversion m conversion =
     (case convertedImport conversion of
        None \<Rightarrow> m
      | Some converted \<Rightarrow> if converted = [] then m else (originalImport conversion, converted) # m)"

definition conversionMap :: "ConversionResult list \<Rightarrow> (string \<times> string) list" where
  "conversionMap conversions = foldl add_conversion [] conversions"

definition replace_step :: "(string \<times> string) list \<Rightarrow> string \<Rightarrow> ImportMatch \<Rightarrow> string" where
  "replace_step cmap modifiedContent importMatch =
     (case map_of cmap (importPath importMatch) of
        None \<Rightarrow> modifiedContent
      | Some converted \<Rightarrow>
          if converted = [] then modifiedContent
          else
            let newFullMatch =
                  replaceImportPathInStatement (fullMatch importMatch) (importPath importMatch) converted
            in take (startIndex importMatch) modifiedContent @ newFullMatch
               @ drop (endIndex importMatch) modifiedContent)"

definition replaceImports :: "string \<Rightarrow> ImportMatch list \<Rightarrow> ConversionResult list \<Rightarrow> string" where
  "replaceImports content imports conversions =
     (let cmap = conversionMap conversions
      in if cmap = [] then content
         else
           let sortedImports = sort_key (\<lambda>m. - int (startIndex m)) imports
           in foldl (replace_step cmap) content sortedImports)"

definition comment_content :: string where
  "comment_content = ''import { a /* require('./b') */ } from './a';''"

definition comment_matches :: "ImportMatch list" where
  "comment_matches =
     [\<lparr> fullMatch = ''import { a /* require('./b') */ } from './a'' @ [CHR 0x27], importPath = ''./a'',
         startIndex = 0, endIndex = 44, importType = es6 \<rparr>,
      \<lparr> fullMatch = ''require('./b')'', importPath = ''./b'',
         startIndex = 14, endIndex = 28, importType = commonjs \<rparr>]"

definition comment_conversions :: "ConversionResult list" where
  "comment_conversions =
     [\<lparr> originalImport = ''./a'', convertedImport = Some ''@/a'', reason = None \<rparr>,
      \<lparr> originalImport = ''./b'', convertedImport = Some ''@lib/b'', reason = None \<rparr>]"

definition string_name_content :: string where
  "string_name_content = ''import { './a' as c } from '' @ [CHR 0x22] @ ''./a'' @ [CHR 0x22] @ '';''"

definition string_name_matches :: "ImportMatch list" where
  "string_name_matches =
     [\<lparr> fullMatch = ''import { './a' as c } from '' @ [CHR 0x22] @ ''./a'' @ [CHR 0x22], importPath = ''./a'',
         startIndex = 0, endIndex = 32, importType = es6 \<rparr>]"

definition string_name_conversions :: "ConversionResult list" where
  "string_name_conversions =
     [\<lparr> originalImport = ''./a'', convertedImport = Some ''@/a'', reason = None \<rparr>]"

section \<open>Import locator\<close>

text \<open>
  The seven regular expressions that the parse functions run are sequences of literal
  strings, single characters of a class, and greedy repetitions of a class, with one capture
  group \<open>([^'"`]+)\<close>. \<open>run_atoms\<close> is the backtracking matcher at one position: a repetition
  tries the longest run first and gives characters back one at a time (\<open>first_down\<close>), so the
  first success is the match that JavaScript reports; the result is the length of the match
  and the text of the capture group. \<open>exec_all\<close> is the \<open>while ((match = pattern.exec(content)))\<close>
  loop of a global expression from \<open>lastIndex = 0\<close>: the leftmost match at or after the cursor,
  then the cursor moves to its end. Every pattern starts with a non-empty literal, so a
  match is never empty. \<open>exec\<close> does not throw on a string, so \<open>safeParseImports\<close> returns what
  the parse function returns, and the \<open>catch\<close> of \<open>findImports\<close> is never entered.
  \<open>findImports\<close> is taken with its default options, which enable the three families of
  patterns; \<open>Array.prototype.sort\<close> is stable, as is \<^const>\<open>sort_key\<close>.
\<close>

datatype char_class = Space | Word | Quote | NotQuote | NotBrace

fun in_class :: "char_class \<Rightarrow> char \<Rightarrow> bool" where
  "in_class Space c = is_space c"
| "in_class Word c =
     (let n = (of_char c :: nat)
      in (48 \<le> n \<and> n \<le> 57) \<or> (65 \<le> n \<and> n \<le> 90) \<or> (97 \<le> n \<and> n \<le> 122) \<or> n = 95)"
| "in_class Quote c = (c = CHR 0x27 \<or> c = CHR 0x22 \<or> c = CHR 0x60)"
| "in_class NotQuote c = (\<not> (c = CHR 0x27 \<or> c = CHR 0x22 \<or> c = CHR 0x60))"
| "in_class NotBrace c = (c \<noteq> CHR ''}'')"

datatype atom = Lit string | One char_class | Star char_class | Plus char_class | Capture char_class

fun first_down :: "(nat \<Rightarrow> 'a option) \<Rightarrow> nat \<Rightarrow> nat \<Rightarrow> 'a option" where
  "first_down f lo 0 = (if lo = 0 then f 0 else None)"
| "first_down f lo (Suc k) =
     (if Suc k < lo then None
      else case f (Suc k) of Some r \<Rightarrow> Some r | None \<Rightarrow> first_down f lo k)"

fun run_atoms :: "atom list \<Rightarrow> string \<Rightarrow> (nat \<times> string) option" where
  "run_atoms [] s = Some (0, [])"
| "run_atoms (Lit l # r) s =
     (if prefix l s then map_option (\<lambda>(n, cap). (length l + n, cap)) (run_atoms r (drop (length l) s))
      else None)"
| "run_atoms (One c # r) s =
     (case s of
        [] \<Rightarrow> None
      | x # xs \<Rightarrow> if in_class c x then map_option (\<lambda>(n, cap). (Suc n, cap)) (run_atoms r xs) else None)"
| "run_atoms (Star c # r) s =
     first_down (\<lambda>k. map_option (\<lambda>(n, cap). (k + n, cap)) (run_atoms r (drop k s)))
       0 (length (takeWhile (in_class c) s))"
| "run_atoms (Plus c # r) s =
     first_down (\<lambda>k. map_option (\<lambda>(n, cap). (k + n, cap)) (run_atoms r (drop k s)))
       1 (length (takeWhile (in_class c) s))"
| "run_atoms (Capture c # r) s =
     first_down (\<lambda>k. map_option (\<lambda>(n, cap). (k + n, take k s)) (run_atoms r (drop k s)))
       1 (length (takeWhile (in_class c) s))"

fun exec_all :: "atom list \<Rightarrow> nat \<Rightarrow> string \<Rightarrow> (nat \<times> string \<times> string) list" where
  "exec_all p i [] = []"
| "exec_all p i (c # cs) =
     (case run_atoms p (c # cs) of
        None \<Rightarrow> exec_all p (Suc i) cs
      | Some (n, cap) \<Rightarrow> (i, take n (c # cs), cap) # exec_all p (i + n) (drop (n - 1) cs))"

definition quoted_path :: "atom list" where
  "quoted_path = [One Quote, Capture NotQuote, One Quote]"

definition ES6_NAMED_IMPORT :: "atom list" where
  "ES6_NAMED_IMPORT =
     [Lit ''import'', Plus Space, Lit ''{'', Star NotBrace, Lit ''}'', Plus Space, Lit ''from'', Plus Space]
     @ quoted_path"

definition ES6_DEFAULT_IMPORT :: "atom list" where
  "ES6_DEFAULT_IMPORT =
     [Lit ''import'', Plus Space, Plus Word, Plus Space, Lit ''from'', Plus Space] @ quoted_path"

definition ES6_NAMESPACE_IMPORT :: "atom list" where
  "ES6_NAMESPACE_IMPORT =
     [Lit ''import'', Plus Space, Lit ''*'', Plus Space, Lit ''as'', Plus Space, Plus Word, Plus Space,
      Lit ''from'', Plus Space] @ quoted_path"

definition ES6_MIXED_IMPORT :: "atom list" where
  "ES6_MIXED_IMPORT =
     [Lit ''import'', Plus Space, Plus Word, Star Space, Lit '','', Star Space, Lit ''{'', Star NotBrace,
      Lit ''}'', Plus Space, Lit ''from'', Plus Space] @ quoted_path"

definition ES6_IMPORT_SIDE_EFFECT :: "atom list" where
  "ES6_IMPORT_SIDE_EFFECT = [Lit ''import'', Plus Space] @ quoted_path"

definition COMMONJS_REQUIRE :: "atom list" where
  "COMMONJS_REQUIRE =
     [Lit ''require'', Star Space, Lit ''('', Star Space] @ quoted_path @ [Star Space, Lit '')'']"

definition DYNAMIC_IMPORT :: "atom list" where
  "DYNAMIC_IMPORT =
     [Lit ''import'', Star Space, Lit ''('', Star Space] @ quoted_path @ [Star Space, Lit '')'']"

definition pattern_matches :: "ImportType \<Rightarrow> atom list \<Rightarrow> string \<Rightarrow> ImportMatch list" where
  "pattern_matches ty pattern content =
     map (\<lambda>(i, full, cap).
            \<lparr> fullMatch = full, importPath = cap, startIndex = i, endIndex = i + length full,
              importType = ty \<rparr>)
       (filter (\<lambda>(i, full, cap). startsWith cap ''./'' \<or> startsWith cap ''../'')
          (exec_all pattern 0 content))"

definition parseES6Imports :: "string \<Rightarrow> ImportMatch list" where
  "parseES6Imports content =
     concat (map (\<lambda>pattern. pattern_matches es6 pattern content)
       [ES6_NAMED_IMPORT, ES6_DEFAULT_IMPORT, ES6_NAMESPACE_IMPORT, ES6_MIXED_IMPORT,
        ES6_IMPORT_SIDE_EFFECT])"

definition parseCommonJSImports :: "string \<Rightarrow> ImportMatch list" where
  "parseCommonJSImports content = pattern_matches commonjs COMMONJS_REQUIRE content"

definition parseDynamicImports :: "string \<Rightarrow> ImportMatch list" where
  "parseDynamicImports content = pattern_matches dynamic DYNAMIC_IMPORT content"

definition validateImportPath :: "string \<Rightarrow> string option" where
  "validateImportPath path =
     (if path = [] then None
      else let trimmed = trim path
           in if trimmed = [] \<or> CHR 0x0A \<in> set trimmed \<or> CHR 0x0D \<in> set trimmed then None
              else Some trimmed)"

definition allMatches :: "string \<Rightarrow> ImportMatch list" where
  "allMatches content = parseES6Imports content @ parseCommonJSImports content @ parseDynamicImports content"

definition validMatches :: "string \<Rightarrow> ImportMatch list" where
  "validMatches content =
     List.map_filter
       (\<lambda>m. case validateImportPath (importPath m) of
               None \<Rightarrow> None
             | Some validPath \<Rightarrow> Some (m\<lparr> importPath := validPath \<rparr>))
       (allMatches content)"

definition sortedMatches :: "string \<Rightarrow> ImportMatch list" where
  "sortedMatches content = sort_key startIndex (validMatches content)"

fun unique_after :: "ImportMatch \<Rightarrow> ImportMatch list \<Rightarrow> ImportMatch list" where
  "unique_after prev [] = []"
| "unique_after prev (m # ms) =
     (if startIndex m = startIndex prev \<and> importPath m = importPath prev then unique_after m ms
      else m # unique_after m ms)"

fun uniqueMatches :: "ImportMatch list \<Rightarrow> ImportMatch list" where
  "uniqueMatches [] = []"
| "uniqueMatches (m # ms) = m # unique_after m ms"

definition findImports :: "string \<Rightarrow> ImportMatch list" where
  "findImports content = (if content = [] then [] else uniqueMatches (sortedMatches content))"

definition accepts :: "atom list \<Rightarrow> string \<Rightarrow> bool" where
  "accepts p s = (run_atoms p s \<noteq> None)"

definition classify :: "string \<Rightarrow> nat" where
  "classify s =
     (if prefix ''require'' s then 1
      else if prefix ''import'' s then
        (case dropWhile is_space (drop 6 s) of
           [] \<Rightarrow> 0
         | c # rest \<Rightarrow>
             if c = CHR ''('' then 2
             else if c = CHR ''{'' then 3
             else if c = CHR ''*'' then 4
             else if in_class Quote c then 5
             else if in_class Word c then
               (case dropWhile is_space (dropWhile (in_class Word) (c # rest)) of
                  [] \<Rightarrow> 0
                | d # rest' \<Rightarrow> if d = CHR '','' then 6 else 7)
             else 0)
      else 0)"

definition all_patterns :: "atom list list" where
  "all_patterns =
     [ES6_NAMED_IMPORT, ES6_DEFAULT_IMPORT, ES6_NAMESPACE_IMPORT, ES6_MIXED_IMPORT,
      ES6_IMPORT_SIDE_EFFECT, COMMONJS_REQUIRE, DYNAMIC_IMPORT]"

definition match_key :: "ImportMatch \<Rightarrow> nat \<times> string" where
  "match_key m = (startIndex m, importPath m)"

definition never_empty :: "atom list \<Rightarrow> bool" where
  "never_empty p = (\<forall>s n cap. run_atoms p s = Some (n, cap) \<longrightarrow> 1 \<le> n)"

definition typed_patterns :: "(ImportType \<times> atom list) list" where
  "typed_patterns =
     [(es6, ES6_NAMED_IMPORT), (es6, ES6_DEFAULT_IMPORT), (es6, ES6_NAMESPACE_IMPORT),
      (es6, ES6_MIXED_IMPORT), (es6, ES6_IMPORT_SIDE_EFFECT), (commonjs, COMMONJS_REQUIRE),
      (dynamic, DYNAMIC_IMPORT)]"

definition line_break_content :: string where
  "line_break_content = ''import './a'' @ [CHR 0x0A] @ ''b';''"

definition sample_content :: string where
  "sample_content = ''import { Component } from './component'; import React from 'react';''"

section \<open>Properties of findBestMatch\<close>

lemma path_normalize_nonempty: "path_normalize p \<noteq> []"
  by (simp add: path_normalize_def Let_def)

lemma foldl_nested_concat:
  "foldl (\<lambda>acc (key, ms). foldl f acc ms) a kms = foldl f a (concat (map snd kms))"
  by (induction kms arbitrary: a) (auto)

lemma findBestMatch_flat:
  "findBestMatch state p = fst (foldl (best_step (path_normalize p)) (None, 0) (all_mappings state))"
  by (simp add: findBestMatch_def all_mappings_def foldl_nested_concat)

lemma best_inv_step:
  assumes "best_inv p ms acc"
  shows "best_inv p (ms @ [m]) (best_step (path_normalize p) acc m)"
proof (cases "qualifies p m \<and> length (normalized_base m) > snd acc")
  case False
  show ?thesis
  proof (cases "fst acc")
    case None
    with assms False have "\<not> qualifies p m"
      by (auto simp: best_inv_def qualifies_def normalized_base_def path_normalize_nonempty)
    with assms None show ?thesis
      by (auto simp: best_inv_def best_step_def Let_def startsWith_def qualifies_def)
  next
    case (Some b)
    with assms obtain i where i: "i < length ms" "ms ! i = b" "qualifies p b"
      "\<forall>j < length ms. qualifies p (ms ! j) \<longrightarrow> length (normalized_base (ms ! j)) \<le> length (normalized_base b)"
      "\<forall>j < i. qualifies p (ms ! j) \<longrightarrow> length (normalized_base (ms ! j)) < length (normalized_base b)"
      and sl: "snd acc = length (normalized_base b)"
      by (auto simp: best_inv_def)
    have step: "best_step (path_normalize p) acc m = acc"
      using False by (auto simp: best_step_def Let_def startsWith_def qualifies_def)
    have "\<forall>j < length (ms @ [m]). qualifies p ((ms @ [m]) ! j) \<longrightarrow>
            length (normalized_base ((ms @ [m]) ! j)) \<le> length (normalized_base b)"
      using i(4) False sl by (auto simp: nth_append less_Suc_eq)
    moreover have "\<forall>j < i. qualifies p ((ms @ [m]) ! j) \<longrightarrow>
            length (normalized_base ((ms @ [m]) ! j)) < length (normalized_base b)"
      using i(1,5) by (auto simp: nth_append)
    moreover have "i < length (ms @ [m])" "(ms @ [m]) ! i = b"
      using i(1,2) by (auto simp: nth_append)
    ultimately show ?thesis
      using Some sl i(3) unfolding step best_inv_def by auto
  qed
next
  case True
  then have step: "best_step (path_normalize p) acc m = (Some m, length (normalized_base m))"
    by (auto simp: best_step_def Let_def startsWith_def qualifies_def)
  have older: "\<forall>j < length ms. qualifies p (ms ! j) \<longrightarrow> length (normalized_base (ms ! j)) < length (normalized_base m)"
  proof (cases "fst acc")
    case None
    with assms show ?thesis by (auto simp: best_inv_def)
  next
    case (Some b)
    with assms True show ?thesis by (fastforce simp: best_inv_def)
  qed
  have "\<forall>j < length (ms @ [m]). qualifies p ((ms @ [m]) ! j) \<longrightarrow>
          length (normalized_base ((ms @ [m]) ! j)) \<le> length (normalized_base m)"
    using older by (auto simp: nth_append less_Suc_eq dest: less_imp_le)
  moreover have "\<forall>j < length ms. qualifies p ((ms @ [m]) ! j) \<longrightarrow>
          length (normalized_base ((ms @ [m]) ! j)) < length (normalized_base m)"
    using older by (auto simp: nth_append)
  ultimately show ?thesis
    using True unfolding step best_inv_def
    by (auto intro!: exI[of _ "length ms"])
qed

lemma best_inv_foldl:
  "best_inv p ms (foldl (best_step (path_normalize p)) (None, 0) ms)"
proof (induction ms rule: rev_induct)
  case Nil
  show ?case by (simp add: best_inv_def)
next
  case (snoc m ms)
  then show ?case by (simp add: best_inv_step)
qed

lemma example_best:
  "findBestMatch example_state ''/p/src/components/Button.ts'' =
     Some \<lparr> alias = ''@components/*'', basePath = ''./src/components/*'', resolvedBase = ''/p/src/components'' \<rparr>"
  by code_simp

text \<open>
  Claim C1. \<open>findBestMatch\<close> returns \<open>null\<close> exactly when no mapping's normalized,
  \<open>/*\<close>-stripped resolved base directory is a string prefix of the normalized candidate path.
  Otherwise it returns a qualifying mapping whose base directory string is longest, and among
  the longest ones the first in iteration order. For the aliases \<open>@\<close> at \<open>/p/src\<close> and
  \<open>@components\<close> at \<open>/p/src/components\<close>, the path \<open>/p/src/components/Button.ts\<close> selects
  \<open>@components\<close>.
\<close>

theorem findBestMatch_longest_prefix:
  "(findBestMatch state p = None \<longleftrightarrow> (\<forall>m \<in> set (all_mappings state). \<not> qualifies p m)) \<and>
   (\<forall>b. findBestMatch state p = Some b \<longrightarrow>
      (\<exists>i < length (all_mappings state). all_mappings state ! i = b \<and> qualifies p b \<and>
         (\<forall>j < length (all_mappings state). qualifies p (all_mappings state ! j) \<longrightarrow>
              length (normalized_base (all_mappings state ! j)) \<le> length (normalized_base b)) \<and>
         (\<forall>j < i. qualifies p (all_mappings state ! j) \<longrightarrow>
              length (normalized_base (all_mappings state ! j)) < length (normalized_base b)))) \<and>
   findBestMatch example_state ''/p/src/components/Button.ts'' =
     Some \<lparr> alias = ''@components/*'', basePath = ''./src/components/*'', resolvedBase = ''/p/src/components'' \<rparr>"
proof -
  let ?acc = "foldl (best_step (path_normalize p)) (None, 0) (all_mappings state)"
  have inv: "best_inv p (all_mappings state) ?acc" by (rule best_inv_foldl)
  have fb: "findBestMatch state p = fst ?acc" by (rule findBestMatch_flat)
  have a: "findBestMatch state p = None \<longleftrightarrow> (\<forall>m \<in> set (all_mappings state). \<not> qualifies p m)"
  proof (cases "fst ?acc")
    case None
    with inv fb show ?thesis by (simp add: best_inv_def)
  next
    case (Some b)
    with inv fb show ?thesis by (auto simp: best_inv_def)
  qed
  have b: "\<forall>b. findBestMatch state p = Some b \<longrightarrow>
      (\<exists>i < length (all_mappings state). all_mappings state ! i = b \<and> qualifies p b \<and>
         (\<forall>j < length (all_mappings state). qualifies p (all_mappings state ! j) \<longrightarrow>
              length (normalized_base (all_mappings state ! j)) \<le> length (normalized_base b)) \<and>
         (\<forall>j < i. qualifies p (all_mappings state ! j) \<longrightarrow>
              length (normalized_base (all_mappings state ! j)) < length (normalized_base b)))"
    using inv fb by (auto simp: best_inv_def split: option.splits)
  show ?thesis using a b example_best by blast
qed

theorem findBestMatch_longest_prefix_witness:
  "findBestMatch example_state ''/p/src/components/Button.ts'' =
     Some \<lparr> alias = ''@components/*'', basePath = ''./src/components/*'', resolvedBase = ''/p/src/components'' \<rparr> \<and>
   (\<exists>i < length (all_mappings example_state).
      all_mappings example_state ! i =
        \<lparr> alias = ''@components/*'', basePath = ''./src/components/*'', resolvedBase = ''/p/src/components'' \<rparr> \<and>
      qualifies ''/p/src/components/Button.ts'' (all_mappings example_state ! i)) \<and>
   \<not> (\<forall>m \<in> set (all_mappings example_state). \<not> qualifies ''/p/src/components/Button.ts'' m)"
proof -
  let ?b = "\<lparr> alias = ''@components/*'', basePath = ''./src/components/*'', resolvedBase = ''/p/src/components'' \<rparr>"
  have ex: "findBestMatch example_state ''/p/src/components/Button.ts'' = Some ?b"
    by code_simp
  from findBestMatch_longest_prefix [of example_state "''/p/src/components/Button.ts''"] ex
  show ?thesis by auto
qed

section \<open>Properties of createPathResolver\<close>


section \<open>Properties of resolveImport\<close>

text \<open>
  Claim C2 (round trip). Under the alias \<open>@/*\<close> at \<open>/p/src\<close>, the import \<open>./x\<close> of the file
  \<open>/p/srcfoo/a.ts\<close> resolves to \<open>/p/srcfoo/x\<close>. \<open>findBestMatch\<close> accepts \<open>/p/src\<close> because it is a
  string prefix, and the import is converted to \<open>@/foo/x\<close>; joining the base directory with
  the remainder \<open>foo/x\<close> gives \<open>/p/src/foo/x\<close>, another file.
\<close>

theorem resolveImport_round_trip_fails:
  "path_resolve ''/'' [path_dirname ''/p/srcfoo/a.ts'', ''./x''] = ''/p/srcfoo/x'' \<and>
   findBestMatch src_alias_state ''/p/srcfoo/x'' =
     Some \<lparr> alias = ''@/*'', basePath = ''./src/*'', resolvedBase = ''/p/src'' \<rparr> \<and>
   convertedImport (fst (resolveImport ''/'' [] src_alias_state ''./x'' ''/p/srcfoo/a.ts'')) = Some ''@/foo/x'' \<and>
   path_resolve ''/'' [''/p/src'', ''foo/x''] = ''/p/src/foo/x''"
  by code_simp

text \<open>
  Claim C7 (failures are cached). With no alias configured, \<open>./x\<close> imported from \<open>/a/b.ts\<close>
  misses the empty cache, the result is \<open>No matching path alias found\<close>, and the cache is
  returned as it was: nothing is stored under the key.
\<close>

theorem resolveImport_no_match_not_cached:
  "resolveImport ''/'' [] no_alias_state ''./x'' ''/a/b.ts'' =
     (\<lparr> originalImport = ''./x'', convertedImport = None,
         reason = Some ''No matching path alias found'' \<rparr>, [])"
  by code_simp

text \<open>
  Claim C6 (purity in the state, the literal and the file). Three calls in a row on the
  same file \<open>/p/src/a.ts\<close> and literal \<open>./x\<close>: the first and the third with the state that has
  no alias, the second with the state that has \<open>@/*\<close>. The first call finds no alias and
  stores nothing. The second stores its conversion under the key \<open>/p/src/a.ts:./x\<close>, which
  does not mention the state. The third call has the arguments of the first, finds that
  key, and returns the conversion to \<open>@/x\<close>, an alias that its own state does not define:
  two calls with identical arguments return different results.
\<close>

theorem resolveImport_stale_across_states:
  "resolveImport ''/'' [] no_alias_state ''./x'' ''/p/src/a.ts'' =
     (\<lparr> originalImport = ''./x'', convertedImport = None,
         reason = Some ''No matching path alias found'' \<rparr>, []) \<and>
   resolveImport ''/'' [] src_alias_state ''./x'' ''/p/src/a.ts'' =
     (at_alias_converted, [(''/p/src/a.ts:./x'', at_alias_converted)]) \<and>
   resolveImport ''/'' [(''/p/src/a.ts:./x'', at_alias_converted)] no_alias_state ''./x'' ''/p/src/a.ts'' =
     (at_alias_converted, [(''/p/src/a.ts:./x'', at_alias_converted)]) \<and>
   convertedImport at_alias_converted = Some ''@/x'' \<and>
   findBestMatch no_alias_state (path_resolve ''/'' [path_dirname ''/p/src/a.ts'', ''./x'']) = None"
  by code_simp

section \<open>Properties of the ignore matcher\<close>

lemma ignore_loop_step:
  "ignore_loop (map compilePattern (ps @ [q])) (ps @ [q]) path lastMatch =
     (case ignore_loop (map compilePattern ps) ps path lastMatch of
        None \<Rightarrow> None
      | Some l \<Rightarrow> Some (if RegExp_test (compilePattern q) path then Some (match_result q) else l))"
  by (induction ps arbitrary: lastMatch)
     (simp_all add: match_result_def negation_result_def pattern_result_def)

lemma ignore_loop_last_matching:
  "ignore_loop (map compilePattern ps) ps path None =
     Some (map_option match_result (last_matching ps path))"
proof (induction ps rule: rev_induct)
  case Nil
  show ?case by (simp add: last_matching_def)
next
  case (snoc q ps)
  show ?case
    unfolding ignore_loop_step snoc.IH
    by (simp add: last_matching_def)
qed

lemma shouldIgnore_compiled:
  "shouldIgnore (compiled_state ps) filePath =
     Some (case last_matching ps (clean_path filePath) of
             None \<Rightarrow> no_match_result
           | Some q \<Rightarrow> match_result q)"
  by (simp add: shouldIgnore_def compiled_state_def compilePatterns_def ignore_loop_last_matching
        no_match_result_def split: option.splits)

lemma never_items_no_match: "\<not> rx_search ic [REol, RDot, RBol] atStart s"
  by (induction s arbitrary: atStart) simp_all

lemma never_regexp_no_match: "\<not> RegExp_test never_regexp s"
proof -
  have "rx_parse ''$.^'' = Some [REol, RDot, RBol]" by code_simp
  then show ?thesis
    by (simp add: RegExp_test_def never_regexp_def never_items_no_match)
qed

lemma compilePattern_never:
  assumes "pattern = ''**'' \<or> pattern = ''***'' \<or> trim (strip_negation pattern) = []"
  shows "compilePattern pattern = never_regexp"
proof -
  have a: "compilePattern ''**'' = never_regexp" by (simp add: compilePattern_def startsWith_def)
  have b: "compilePattern ''***'' = never_regexp" by (simp add: compilePattern_def startsWith_def)
  have c: "compilePattern pattern = never_regexp" if "trim (strip_negation pattern) = []"
    using that by (simp add: compilePattern_def strip_negation_def Let_def)
  from assms a b c show ?thesis by blast
qed

lemma find_Some_holds: "find P xs = Some x \<Longrightarrow> x \<in> set xs \<and> P x"
  by (induction xs) (auto split: if_splits)

lemma last_matching_matches:
  "last_matching ps path = Some q \<Longrightarrow> q \<in> set ps \<and> RegExp_test (compilePattern q) path"
  unfolding last_matching_def using find_Some_holds [of _ "rev ps" q] by auto

lemma last_matching_filter:
  assumes "\<not> RegExp_test (compilePattern pattern) path"
  shows "last_matching (filter (\<lambda>q. q \<noteq> pattern) ps) path = last_matching ps path"
proof (induction ps rule: rev_induct)
  case Nil
  show ?case by simp
next
  case (snoc q ps)
  then show ?case using assms by (auto simp: last_matching_def)
qed

text \<open>
  Claim C8. For a state whose regular expressions are compiled from its pattern lines,
  \<open>shouldIgnore\<close> decides by the last pattern, in declaration order, whose expression matches
  the cleaned path (backslashes turned into \<open>/\<close>, one leading \<open>/\<close> dropped): the file is
  ignored iff that pattern is not a negation, and it is not ignored when no pattern matches.
  With \<open>*.log\<close> and \<open>!important.log\<close>, \<open>error.log\<close> is ignored and \<open>important.log\<close> is not; with
  \<open>node_modules/**\<close>, \<open>node_modules/pkg/index.js\<close> is ignored and
  \<open>src/node_modules_backup/index.js\<close> is not.
\<close>

theorem shouldIgnore_last_match_wins:
  "(patterns state = compilePatterns (originalPatterns state) \<longrightarrow>
      shouldIgnore state filePath =
        Some (case last_matching (originalPatterns state) (clean_path filePath) of
                None \<Rightarrow> no_match_result
              | Some q \<Rightarrow> if startsWith q ''!'' then negation_result q else pattern_result q)) \<and>
   map_option shouldIgnoreFlag (shouldIgnore (compiled_state [''*.log'', ''!important.log'']) ''error.log'') = Some True \<and>
   map_option shouldIgnoreFlag (shouldIgnore (compiled_state [''*.log'', ''!important.log'']) ''important.log'') = Some False \<and>
   map_option shouldIgnoreFlag (shouldIgnore (compiled_state [''node_modules/**'']) ''node_modules/pkg/index.js'') = Some True \<and>
   map_option shouldIgnoreFlag (shouldIgnore (compiled_state [''node_modules/**'']) ''src/node_modules_backup/index.js'') = Some False"
proof -
  have general: "shouldIgnore state filePath =
        Some (case last_matching (originalPatterns state) (clean_path filePath) of
                None \<Rightarrow> no_match_result
              | Some q \<Rightarrow> if startsWith q ''!'' then negation_result q else pattern_result q)"
    if c: "patterns state = compilePatterns (originalPatterns state)"
  proof -
    have "shouldIgnore state filePath = shouldIgnore (compiled_state (originalPatterns state)) filePath"
      by (simp add: shouldIgnore_def compiled_state_def c)
    then show ?thesis
      by (simp add: shouldIgnore_compiled match_result_def split: option.splits)
  qed
  have e1: "map_option shouldIgnoreFlag (shouldIgnore (compiled_state [''*.log'', ''!important.log'']) ''error.log'') = Some True"
    by code_simp
  have e2: "map_option shouldIgnoreFlag (shouldIgnore (compiled_state [''*.log'', ''!important.log'']) ''important.log'') = Some False"
    by code_simp
  have e3: "map_option shouldIgnoreFlag (shouldIgnore (compiled_state [''node_modules/**'']) ''node_modules/pkg/index.js'') = Some True"
    by code_simp
  have e4: "map_option shouldIgnoreFlag (shouldIgnore (compiled_state [''node_modules/**'']) ''src/node_modules_backup/index.js'') = Some False"
    by code_simp
  from general e1 e2 e3 e4 show ?thesis by blast
qed

theorem shouldIgnore_last_match_wins_witness:
  "patterns (compiled_state [''*.log'', ''!important.log'']) =
     compilePatterns (originalPatterns (compiled_state [''*.log'', ''!important.log''])) \<and>
   last_matching [''*.log'', ''!important.log''] (clean_path ''important.log'') = Some ''!important.log'' \<and>
   shouldIgnore (compiled_state [''*.log'', ''!important.log'']) ''important.log'' =
     Some (negation_result ''!important.log'')"
proof -
  let ?st = "compiled_state [''*.log'', ''!important.log'']"
  have h: "patterns ?st = compilePatterns (originalPatterns ?st)"
    by (simp add: compiled_state_def)
  have o: "originalPatterns ?st = [''*.log'', ''!important.log'']"
    by (simp add: compiled_state_def)
  have l: "last_matching [''*.log'', ''!important.log''] (clean_path ''important.log'') = Some ''!important.log''"
    by code_simp
  have n: "startsWith ''!important.log'' ''!''" by code_simp
  from shouldIgnore_last_match_wins [of ?st "''important.log''"] h
  have "shouldIgnore ?st ''important.log'' =
        Some (case last_matching (originalPatterns ?st) (clean_path ''important.log'') of
                None \<Rightarrow> no_match_result
              | Some q \<Rightarrow> if startsWith q ''!'' then negation_result q else pattern_result q)"
    by blast
  then have "shouldIgnore ?st ''important.log'' = Some (negation_result ''!important.log'')"
    unfolding o l using n by simp
  with h l show ?thesis by blast
qed

text \<open>
  Claim C10. A pattern line that is exactly \<open>**\<close> or \<open>***\<close>, or that is blank once a leading
  \<open>!\<close> is removed, compiles to an expression that matches no path. Such a line is never the
  matched pattern that \<open>shouldIgnore\<close> reports, and deleting it from the pattern list changes
  no verdict.
\<close>

theorem compilePattern_never_matches:
  assumes "pattern = ''**'' \<or> pattern = ''***'' \<or> trim (strip_negation pattern) = []"
  shows "\<not> RegExp_test (compilePattern pattern) path \<and>
         (\<forall>r. shouldIgnore (compiled_state ps) filePath = Some r \<longrightarrow> matchedPattern r \<noteq> Some pattern) \<and>
         shouldIgnore (compiled_state (filter (\<lambda>q. q \<noteq> pattern) ps)) filePath =
           shouldIgnore (compiled_state ps) filePath"
proof -
  have never: "\<not> RegExp_test (compilePattern pattern) p" for p
    by (simp add: compilePattern_never [OF assms] never_regexp_no_match)
  have reported: "matchedPattern r \<noteq> Some pattern" if r: "shouldIgnore (compiled_state ps) filePath = Some r" for r
  proof (cases "last_matching ps (clean_path filePath)")
    case None
    with r show ?thesis by (auto simp: shouldIgnore_compiled no_match_result_def)
  next
    case (Some q)
    from last_matching_matches [OF Some] never have "q \<noteq> pattern" by blast
    with r Some show ?thesis
      by (auto simp: shouldIgnore_compiled match_result_def negation_result_def pattern_result_def
            split: if_splits)
  qed
  have same: "shouldIgnore (compiled_state (filter (\<lambda>q. q \<noteq> pattern) ps)) filePath =
           shouldIgnore (compiled_state ps) filePath"
    by (simp add: shouldIgnore_compiled last_matching_filter [OF never])
  from never reported same show ?thesis by blast
qed

theorem compilePattern_never_matches_witness:
  "\<not> RegExp_test (compilePattern ''**'') ''src/index.ts'' \<and>
   shouldIgnore (compiled_state [''**'', ''*.log'']) ''error.log'' = Some (pattern_result ''*.log'') \<and>
   shouldIgnore (compiled_state [''**'']) ''src/index.ts'' = Some no_match_result \<and>
   matchedPattern (pattern_result ''*.log'') \<noteq> Some ''**''"
proof -
  have h: "''**'' = ''**'' \<or> ''**'' = ''***'' \<or> trim (strip_negation ''**'') = []" by simp
  have a: "shouldIgnore (compiled_state [''**'', ''*.log'']) ''error.log'' = Some (pattern_result ''*.log'')"
    by code_simp
  have b: "shouldIgnore (compiled_state [''**'']) ''src/index.ts'' = Some no_match_result"
    by code_simp
  from compilePattern_never_matches [OF h, of "''src/index.ts''" "[''**'', ''*.log'']" "''error.log''"] a b
  show ?thesis by blast
qed

section \<open>Properties of replaceImports\<close>

text \<open>
  Claim C3 (only the quoted import-path literal of a converted match changes). Two inputs,
  each with the matches that \<open>findImports\<close> returns for it.

  In \<open>import { a /* require('./b') */ } from './a';\<close> the \<open>require\<close> call lies inside the span of
  the \<open>import\<close> statement, and both literals have a conversion. The inner match is rewritten
  first and lengthens the text by three characters; the outer match then writes its
  statement, taken from the original text, over the offsets of the original text. The
  result ends in \<open>'@/a'/a';\<close>: text outside the literals has changed, and \<open>./b\<close> is back.

  In \<open>import { './a' as c } from "./a";\<close> the quote is searched for in the whole statement, single
  quote first, so the string name of the binding is rewritten and the module specifier in
  double quotes is left as it was.
\<close>

theorem replaceImports_breaks_frame:
  "findImports comment_content = comment_matches \<and>
   replaceImports comment_content comment_matches comment_conversions =
     ''import { a /* require('./b') */ } from '@/a'/a';'' \<and>
   findImports string_name_content = string_name_matches \<and>
   replaceImports string_name_content string_name_matches string_name_conversions =
     ''import { '@/a' as c } from '' @ [CHR 0x22] @ ''./a'' @ [CHR 0x22] @ '';''"
  by code_simp

section \<open>Properties of the import locator\<close>

lemma first_down_Some:
  "first_down f lo hi = Some r \<Longrightarrow> \<exists>k. lo \<le> k \<and> k \<le> hi \<and> f k = Some r"
proof (induction hi)
  case 0
  then show ?case by (auto split: if_splits)
next
  case (Suc hi)
  show ?case
  proof (cases "f (Suc hi)")
    case None
    with Suc.prems have "first_down f lo hi = Some r" by (auto split: if_splits)
    from Suc.IH [OF this] show ?thesis by (meson le_Suc_eq)
  next
    case (Some a)
    with Suc.prems have "a = r" "lo \<le> Suc hi" by (auto split: if_splits)
    with Some show ?thesis by blast
  qed
qed

lemma accepts_Lit:
  "accepts (Lit l # r) s \<Longrightarrow> prefix l s \<and> accepts r (drop (length l) s)"
  by (auto simp: accepts_def split: if_splits)

lemma accepts_One:
  "accepts (One c # r) s \<Longrightarrow> \<exists>x xs. s = x # xs \<and> in_class c x \<and> accepts r xs"
  by (cases s) (auto simp: accepts_def split: if_splits)

lemma accepts_Star:
  assumes "accepts (Star c # r) s"
  shows "\<exists>k. k \<le> length (takeWhile (in_class c) s) \<and> accepts r (drop k s)"
proof -
  from assms obtain res where
    "first_down (\<lambda>k. map_option (\<lambda>(n, cap). (k + n, cap)) (run_atoms r (drop k s)))
       0 (length (takeWhile (in_class c) s)) = Some res"
    by (auto simp: accepts_def)
  from first_down_Some [OF this] show ?thesis by (auto simp: accepts_def)
qed

lemma accepts_Plus:
  assumes "accepts (Plus c # r) s"
  shows "\<exists>k. 1 \<le> k \<and> k \<le> length (takeWhile (in_class c) s) \<and> accepts r (drop k s)"
proof -
  from assms obtain res where
    "first_down (\<lambda>k. map_option (\<lambda>(n, cap). (k + n, cap)) (run_atoms r (drop k s)))
       1 (length (takeWhile (in_class c) s)) = Some res"
    by (auto simp: accepts_def)
  from first_down_Some [OF this] show ?thesis by (auto simp: accepts_def)
qed

lemma takeWhile_prefix_holds: "k < length (takeWhile P s) \<Longrightarrow> P (s ! k)"
  by (metis nth_mem set_takeWhileD takeWhile_nth)

lemma run_nonempty: "1 \<le> k \<Longrightarrow> k \<le> length (takeWhile P s) \<Longrightarrow> s \<noteq> [] \<and> P (hd s)"
  by (cases s) (auto split: if_splits)

lemma drop_run_end:
  assumes "k \<le> length (takeWhile P s)" "drop k s \<noteq> []" "\<not> P (hd (drop k s))"
  shows "drop k s = dropWhile P s"
proof -
  have "k = length (takeWhile P s)"
  proof (rule ccontr)
    assume "k \<noteq> length (takeWhile P s)"
    with assms(1) have lt: "k < length (takeWhile P s)" by simp
    then have "k < length s" using length_takeWhile_le [of P s] by simp
    then have "hd (drop k s) = s ! k" by (simp add: hd_drop_conv_nth)
    with takeWhile_prefix_holds [OF lt] assms(3) show False by simp
  qed
  then show ?thesis by (simp add: dropWhile_eq_drop)
qed

lemma skip_Star:
  assumes "accepts (Star c # r) s"
    and "\<And>s'. accepts r s' \<Longrightarrow> s' \<noteq> [] \<and> \<not> in_class c (hd s')"
  shows "accepts r (dropWhile (in_class c) s)"
proof -
  from accepts_Star [OF assms(1)] obtain k where
    k: "k \<le> length (takeWhile (in_class c) s)" "accepts r (drop k s)" by blast
  from assms(2) [OF k(2)] drop_run_end [OF k(1)] k(2) show ?thesis by simp
qed

lemma skip_Plus:
  assumes "accepts (Plus c # r) s"
    and "\<And>s'. accepts r s' \<Longrightarrow> s' \<noteq> [] \<and> \<not> in_class c (hd s')"
  shows "s \<noteq> [] \<and> in_class c (hd s) \<and> accepts r (dropWhile (in_class c) s)"
proof -
  from accepts_Plus [OF assms(1)] obtain k where
    k: "1 \<le> k" "k \<le> length (takeWhile (in_class c) s)" "accepts r (drop k s)" by blast
  from run_nonempty [OF k(1,2)] have "s \<noteq> []" "in_class c (hd s)" by simp_all
  moreover from assms(2) [OF k(3)] drop_run_end [OF k(2)] k(3)
  have "accepts r (dropWhile (in_class c) s)" by simp
  ultimately show ?thesis by blast
qed

lemma skip_Plus_accepts:
  assumes "accepts (Plus c # r) s"
    and "\<And>s'. accepts r s' \<Longrightarrow> s' \<noteq> [] \<and> \<not> in_class c (hd s')"
  shows "accepts r (dropWhile (in_class c) s)"
  using skip_Plus [OF assms] by simp

lemma first_Lit: "accepts (Lit (a # l) # r) s \<Longrightarrow> s \<noteq> [] \<and> hd s = a"
  by (cases s) (auto dest!: accepts_Lit)

lemma first_One: "accepts (One c # r) s \<Longrightarrow> s \<noteq> [] \<and> in_class c (hd s)"
  by (auto dest!: accepts_One)

lemma first_Plus: "accepts (Plus c # r) s \<Longrightarrow> s \<noteq> [] \<and> in_class c (hd s)"
proof -
  assume "accepts (Plus c # r) s"
  from accepts_Plus [OF this] obtain k where "1 \<le> k" "k \<le> length (takeWhile (in_class c) s)" by blast
  then show ?thesis by (rule run_nonempty)
qed

lemma first_Star_Lit:
  assumes "accepts (Star c # Lit (a # l) # r) s"
  shows "s \<noteq> [] \<and> (in_class c (hd s) \<or> hd s = a)"
proof -
  from accepts_Star [OF assms] obtain k where
    k: "k \<le> length (takeWhile (in_class c) s)" "accepts (Lit (a # l) # r) (drop k s)" by blast
  from first_Lit [OF k(2)] have d: "drop k s \<noteq> []" "hd (drop k s) = a" by simp_all
  then have s: "s \<noteq> []" by auto
  show ?thesis
  proof (cases k)
    case 0
    with d s show ?thesis by simp
  next
    case (Suc j)
    with k(1) have "1 \<le> k" "k \<le> length (takeWhile (in_class c) s)" by simp_all
    from run_nonempty [OF this] show ?thesis by simp
  qed
qed

lemma in_class_Space: "in_class Space = is_space"
  by (rule ext) simp

lemma space_not_word: "is_space c \<Longrightarrow> \<not> in_class Word c"
  by (auto simp: is_space_def Let_def)

lemma word_not_special:
  "in_class Word c \<Longrightarrow>
     c \<noteq> CHR ''('' \<and> c \<noteq> CHR ''{'' \<and> c \<noteq> CHR ''*'' \<and> c \<noteq> CHR '','' \<and> \<not> in_class Quote c"
  by (auto simp: Let_def)

lemma quote_not_special:
  "in_class Quote c \<Longrightarrow> c \<noteq> CHR ''('' \<and> c \<noteq> CHR ''{'' \<and> c \<noteq> CHR ''*''"
  by auto

lemma special_not_space:
  "\<not> is_space CHR ''(''" "\<not> is_space CHR ''{''" "\<not> is_space CHR ''*''" "\<not> is_space CHR '',''"
  "\<not> is_space CHR ''f''"
  by (simp_all add: is_space_def)

lemma quote_not_space: "in_class Quote c \<Longrightarrow> \<not> is_space c"
  by (auto simp: is_space_def)

lemma word_then_not_space:
  assumes "accepts (Plus Word # r) s"
  shows "s \<noteq> [] \<and> \<not> in_class Space (hd s)"
proof -
  from first_Plus [OF assms] have a: "s \<noteq> []" "in_class Word (hd s)" by blast+
  from space_not_word [of "hd s"] a(2) have "\<not> is_space (hd s)" by blast
  with a(1) show ?thesis by simp
qed

lemma space_then_not_word:
  assumes "accepts (Plus Space # r) s"
  shows "s \<noteq> [] \<and> \<not> in_class Word (hd s)"
proof -
  from first_Plus [OF assms] have a: "s \<noteq> []" "is_space (hd s)" by simp_all
  from space_not_word [OF a(2)] a(1) show ?thesis by blast
qed

lemma import_not_require: "prefix ''import'' s \<Longrightarrow> \<not> prefix ''require'' s"
  by (cases s) auto

lemma classify_after_import:
  assumes "prefix ''import'' s" "dropWhile is_space (drop 6 s) = c # rest"
  shows "classify s =
     (if c = CHR ''('' then 2
      else if c = CHR ''{'' then 3
      else if c = CHR ''*'' then 4
      else if in_class Quote c then 5
      else if in_class Word c then
        (case dropWhile is_space (dropWhile (in_class Word) (c # rest)) of
           [] \<Rightarrow> 0
         | d # rest' \<Rightarrow> if d = CHR '','' then 6 else 7)
      else 0)"
  unfolding classify_def if_not_P [OF import_not_require [OF assms(1)]] if_P [OF assms(1)] assms(2)
  by simp

lemma classify_COMMONJS: "accepts COMMONJS_REQUIRE s \<Longrightarrow> classify s = 1"
  unfolding COMMONJS_REQUIRE_def by (auto dest!: accepts_Lit simp: classify_def)

lemma classify_DYNAMIC:
  assumes "accepts DYNAMIC_IMPORT s"
  shows "classify s = 2"
proof -
  let ?r = "[Star Space] @ quoted_path @ [Star Space, Lit '')'']"
  from assms have a: "accepts (Lit ''import'' # Star Space # Lit ''('' # ?r) s"
    by (simp add: DYNAMIC_IMPORT_def)
  from accepts_Lit [OF a] have p: "prefix ''import'' s"
    and b: "accepts (Star Space # Lit ''('' # ?r) (drop 6 s)" by (simp_all add: eval_nat_numeral)
  have "accepts (Lit ''('' # ?r) (dropWhile (in_class Space) (drop 6 s))"
    by (rule skip_Star [OF b]) (auto dest!: first_Lit simp: special_not_space)
  from first_Lit [OF this] obtain rest where "dropWhile is_space (drop 6 s) = CHR ''('' # rest"
    by (cases "dropWhile is_space (drop 6 s)") (auto simp: in_class_Space)
  from classify_after_import [OF p this] show ?thesis by simp
qed

lemma classify_NAMED:
  assumes "accepts ES6_NAMED_IMPORT s"
  shows "classify s = 3"
proof -
  let ?r = "[Star NotBrace, Lit ''}'', Plus Space, Lit ''from'', Plus Space] @ quoted_path"
  from assms have a: "accepts (Lit ''import'' # Plus Space # Lit ''{'' # ?r) s"
    by (simp add: ES6_NAMED_IMPORT_def)
  from accepts_Lit [OF a] have p: "prefix ''import'' s"
    and b: "accepts (Plus Space # Lit ''{'' # ?r) (drop 6 s)" by (simp_all add: eval_nat_numeral)
  have "accepts (Lit ''{'' # ?r) (dropWhile (in_class Space) (drop 6 s))"
    by (rule skip_Plus_accepts [OF b]) (auto dest!: first_Lit simp: special_not_space)
  from first_Lit [OF this] obtain rest where "dropWhile is_space (drop 6 s) = CHR ''{'' # rest"
    by (cases "dropWhile is_space (drop 6 s)") (auto simp: in_class_Space)
  from classify_after_import [OF p this] show ?thesis by simp
qed

lemma classify_NAMESPACE:
  assumes "accepts ES6_NAMESPACE_IMPORT s"
  shows "classify s = 4"
proof -
  let ?r = "[Plus Space, Lit ''as'', Plus Space, Plus Word, Plus Space, Lit ''from'', Plus Space] @ quoted_path"
  from assms have a: "accepts (Lit ''import'' # Plus Space # Lit ''*'' # ?r) s"
    by (simp add: ES6_NAMESPACE_IMPORT_def)
  from accepts_Lit [OF a] have p: "prefix ''import'' s"
    and b: "accepts (Plus Space # Lit ''*'' # ?r) (drop 6 s)" by (simp_all add: eval_nat_numeral)
  have "accepts (Lit ''*'' # ?r) (dropWhile (in_class Space) (drop 6 s))"
    by (rule skip_Plus_accepts [OF b]) (auto dest!: first_Lit simp: special_not_space)
  from first_Lit [OF this] obtain rest where "dropWhile is_space (drop 6 s) = CHR ''*'' # rest"
    by (cases "dropWhile is_space (drop 6 s)") (auto simp: in_class_Space)
  from classify_after_import [OF p this] show ?thesis by simp
qed

lemma classify_SIDE_EFFECT:
  assumes "accepts ES6_IMPORT_SIDE_EFFECT s"
  shows "classify s = 5"
proof -
  let ?r = "[Capture NotQuote, One Quote]"
  from assms have a: "accepts (Lit ''import'' # Plus Space # One Quote # ?r) s"
    by (simp add: ES6_IMPORT_SIDE_EFFECT_def quoted_path_def)
  from accepts_Lit [OF a] have p: "prefix ''import'' s"
    and b: "accepts (Plus Space # One Quote # ?r) (drop 6 s)" by (simp_all add: eval_nat_numeral)
  have "accepts (One Quote # ?r) (dropWhile (in_class Space) (drop 6 s))"
    by (rule skip_Plus_accepts [OF b]) (auto dest!: first_One simp: is_space_def)
  from first_One [OF this] obtain c rest where c: "dropWhile is_space (drop 6 s) = c # rest" "in_class Quote c"
    by (cases "dropWhile is_space (drop 6 s)") (auto simp: in_class_Space)
  from classify_after_import [OF p c(1)] c(2) quote_not_special [OF c(2)] show ?thesis by simp
qed

lemma classify_DEFAULT:
  assumes "accepts ES6_DEFAULT_IMPORT s"
  shows "classify s = 7"
proof -
  let ?r = "[Plus Space] @ quoted_path"
  from assms have a: "accepts (Lit ''import'' # Plus Space # Plus Word # Plus Space # Lit ''from'' # ?r) s"
    by (simp add: ES6_DEFAULT_IMPORT_def)
  from accepts_Lit [OF a] have p: "prefix ''import'' s"
    and b: "accepts (Plus Space # Plus Word # Plus Space # Lit ''from'' # ?r) (drop 6 s)" by (simp_all add: eval_nat_numeral)
  let ?s2 = "dropWhile is_space (drop 6 s)"
  have w: "accepts (Plus Word # Plus Space # Lit ''from'' # ?r) ?s2"
    unfolding in_class_Space [symmetric]
    by (rule skip_Plus_accepts [OF b]) (rule word_then_not_space)
  from first_Plus [OF w] obtain c rest where c: "?s2 = c # rest" "in_class Word c"
    by (cases ?s2) auto
  have sp: "accepts (Plus Space # Lit ''from'' # ?r) (dropWhile (in_class Word) ?s2)"
    by (rule skip_Plus_accepts [OF w]) (rule space_then_not_word)
  have "accepts (Lit ''from'' # ?r) (dropWhile (in_class Space) (dropWhile (in_class Word) ?s2))"
    by (rule skip_Plus_accepts [OF sp]) (auto dest!: first_Lit simp: special_not_space)
  from first_Lit [OF this] obtain rest' where
    "dropWhile is_space (dropWhile (in_class Word) (c # rest)) = CHR ''f'' # rest'"
    unfolding c(1) [symmetric]
    by (cases "dropWhile is_space (dropWhile (in_class Word) ?s2)") (auto simp: in_class_Space)
  with classify_after_import [OF p c(1)] c(2) word_not_special [OF c(2)] show ?thesis by simp
qed

lemma classify_MIXED:
  assumes "accepts ES6_MIXED_IMPORT s"
  shows "classify s = 6"
proof -
  let ?r = "[Star Space, Lit ''{'', Star NotBrace, Lit ''}'', Plus Space, Lit ''from'', Plus Space] @ quoted_path"
  from assms have a: "accepts (Lit ''import'' # Plus Space # Plus Word # Star Space # Lit '','' # ?r) s"
    by (simp add: ES6_MIXED_IMPORT_def)
  from accepts_Lit [OF a] have p: "prefix ''import'' s"
    and b: "accepts (Plus Space # Plus Word # Star Space # Lit '','' # ?r) (drop 6 s)" by (simp_all add: eval_nat_numeral)
  let ?s2 = "dropWhile is_space (drop 6 s)"
  have w: "accepts (Plus Word # Star Space # Lit '','' # ?r) ?s2"
    unfolding in_class_Space [symmetric]
    by (rule skip_Plus_accepts [OF b]) (rule word_then_not_space)
  from first_Plus [OF w] obtain c rest where c: "?s2 = c # rest" "in_class Word c"
    by (cases ?s2) auto
  have nw: "s' \<noteq> [] \<and> \<not> in_class Word (hd s')" if "accepts (Star Space # Lit '','' # ?r) s'" for s'
    using first_Star_Lit [OF that] space_not_word word_not_special by auto
  have sp: "accepts (Star Space # Lit '','' # ?r) (dropWhile (in_class Word) ?s2)"
    by (rule skip_Plus_accepts [OF w nw])
  have "accepts (Lit '','' # ?r) (dropWhile (in_class Space) (dropWhile (in_class Word) ?s2))"
    by (rule skip_Star [OF sp]) (auto dest!: first_Lit simp: special_not_space)
  from first_Lit [OF this] obtain rest' where
    "dropWhile is_space (dropWhile (in_class Word) (c # rest)) = CHR '','' # rest'"
    unfolding c(1) [symmetric]
    by (cases "dropWhile is_space (dropWhile (in_class Word) ?s2)") (auto simp: in_class_Space)
  with classify_after_import [OF p c(1)] c(2) word_not_special [OF c(2)] show ?thesis by simp
qed

lemma patterns_exclusive:
  assumes "p \<in> set all_patterns" "q \<in> set all_patterns" "accepts p s" "accepts q s"
  shows "p = q"
proof -
  have tag: "(r = ES6_NAMED_IMPORT \<and> classify s = 3) \<or> (r = ES6_DEFAULT_IMPORT \<and> classify s = 7) \<or>
        (r = ES6_NAMESPACE_IMPORT \<and> classify s = 4) \<or> (r = ES6_MIXED_IMPORT \<and> classify s = 6) \<or>
        (r = ES6_IMPORT_SIDE_EFFECT \<and> classify s = 5) \<or> (r = COMMONJS_REQUIRE \<and> classify s = 1) \<or>
        (r = DYNAMIC_IMPORT \<and> classify s = 2)"
    if "r \<in> set all_patterns" "accepts r s" for r
    using that classify_NAMED classify_DEFAULT classify_NAMESPACE classify_MIXED classify_SIDE_EFFECT
      classify_COMMONJS classify_DYNAMIC
    unfolding all_patterns_def by auto
  from tag [OF assms(1,3)] tag [OF assms(2,4)] show ?thesis by auto
qed

lemma run_atoms_Lit_length: "run_atoms (Lit l # r) s = Some (n, cap) \<Longrightarrow> length l \<le> n"
  by (auto split: if_splits)

lemma all_patterns_never_empty: "p \<in> set all_patterns \<Longrightarrow> never_empty p"
  unfolding all_patterns_def never_empty_def ES6_NAMED_IMPORT_def ES6_DEFAULT_IMPORT_def
    ES6_NAMESPACE_IMPORT_def ES6_MIXED_IMPORT_def ES6_IMPORT_SIDE_EFFECT_def COMMONJS_REQUIRE_def
    DYNAMIC_IMPORT_def
  by (auto dest!: run_atoms_Lit_length)

lemma never_emptyD: "never_empty p \<Longrightarrow> run_atoms p s = Some (n, cap) \<Longrightarrow> 1 \<le> n"
  unfolding never_empty_def by blast

lemma exec_all_accepts:
  "never_empty p \<Longrightarrow> (j, full, cap) \<in> set (exec_all p i s) \<Longrightarrow>
     i \<le> j \<and> accepts p (drop (j - i) s)"
proof (induction p i s rule: exec_all.induct)
  case (1 p i)
  then show ?case by simp
next
  case (2 p i c cs)
  note ne = "2.prems"(1) and mem = "2.prems"(2)
  show ?case
  proof (cases "run_atoms p (c # cs)")
    case None
    with mem have "(j, full, cap) \<in> set (exec_all p (Suc i) cs)" by simp
    from "2.IH"(1) [OF None ne this] have "Suc i \<le> j" "accepts p (drop (j - Suc i) cs)" by simp_all
    moreover from \<open>Suc i \<le> j\<close> have "j - i = Suc (j - Suc i)" by simp
    ultimately show ?thesis by simp
  next
    case (Some a)
    obtain n cap' where a: "a = (n, cap')" by (cases a)
    from never_emptyD [OF ne Some [unfolded a]] have n: "1 \<le> n" .
    from mem Some a have
      "(j, full, cap) = (i, take n (c # cs), cap') \<or> (j, full, cap) \<in> set (exec_all p (i + n) (drop (n - 1) cs))"
      by simp
    then show ?thesis
    proof
      assume "(j, full, cap) = (i, take n (c # cs), cap')"
      with Some show ?thesis by (simp add: accepts_def)
    next
      assume "(j, full, cap) \<in> set (exec_all p (i + n) (drop (n - 1) cs))"
      from "2.IH"(2) [OF Some a [symmetric] ne this]
      have b1: "i + n \<le> j" and b2: "accepts p (drop (j - (i + n)) (drop (n - 1) cs))" by blast+
      from b1 n have e: "j - (i + n) + (n - 1) = j - i - 1" by arith
      have "drop (j - (i + n)) (drop (n - 1) cs) = drop (j - (i + n) + (n - 1)) cs"
        by (simp only: drop_drop)
      with b2 e have c: "accepts p (drop (j - i - 1) cs)" by simp
      from b1 n have "j - i = Suc (j - i - 1)" by arith
      then have "drop (j - i) (c # cs) = drop (j - i - 1) cs" by (metis drop_Suc_Cons)
      with c b1 show ?thesis by simp
    qed
  qed
qed

lemma exec_all_lower_bound:
  assumes "never_empty p"
  shows "e \<in> set (exec_all p i s) \<Longrightarrow> i \<le> fst e"
  using exec_all_accepts [OF assms, of "fst e" "fst (snd e)" "snd (snd e)" i s] by simp

lemma exec_all_strict:
  "never_empty p \<Longrightarrow> sorted_wrt (<) (map fst (exec_all p i s))"
proof (induction p i s rule: exec_all.induct)
  case (1 p i)
  show ?case by simp
next
  case (2 p i c cs)
  note ne = "2.prems"
  show ?case
  proof (cases "run_atoms p (c # cs)")
    case None
    with "2.IH"(1) [OF None ne] show ?thesis by simp
  next
    case (Some a)
    obtain n cap' where a: "a = (n, cap')" by (cases a)
    from never_emptyD [OF ne Some [unfolded a]] have n: "1 \<le> n" .
    have "i < fst e" if "e \<in> set (exec_all p (i + n) (drop (n - 1) cs))" for e
      using exec_all_lower_bound [OF ne that] n by simp
    with "2.IH"(2) [OF Some a [symmetric] ne] Some a show ?thesis by auto
  qed
qed

lemma exec_all_index_unique:
  assumes "never_empty p" "e \<in> set (exec_all p i s)" "e' \<in> set (exec_all p i s)" "fst e = fst e'"
  shows "e = e'"
proof -
  from exec_all_strict [OF assms(1), of i s] have "distinct (map fst (exec_all p i s))"
    by (simp add: strict_sorted_iff)
  then have "inj_on fst (set (exec_all p i s))" by (simp add: distinct_map)
  with assms(2-4) show ?thesis by (meson inj_onD)
qed

lemma pattern_matches_starts:
  "map startIndex (pattern_matches ty p content) =
     map fst (filter (\<lambda>(i, full, cap). startsWith cap ''./'' \<or> startsWith cap ''../'') (exec_all p 0 content))"
  by (simp add: pattern_matches_def comp_def case_prod_unfold)

lemma pattern_matches_distinct:
  assumes "never_empty p"
  shows "distinct (map startIndex (pattern_matches ty p content))"
proof -
  from exec_all_strict [OF assms, of 0 content] have "distinct (map fst (exec_all p 0 content))"
    by (simp add: strict_sorted_iff)
  then show ?thesis unfolding pattern_matches_starts by (rule distinct_map_filter)
qed

lemma pattern_matches_hit:
  assumes "m \<in> set (pattern_matches ty p content)"
  shows "\<exists>full cap. (startIndex m, full, cap) \<in> set (exec_all p 0 content) \<and> is_relative_import cap \<and>
           importPath m = cap \<and> fullMatch m = full \<and> importType m = ty"
  using assms by (auto simp: pattern_matches_def is_relative_import_def)

lemma pattern_matches_disjoint:
  assumes "p \<in> set all_patterns" "q \<in> set all_patterns" "p \<noteq> q"
  shows "set (map startIndex (pattern_matches ty p content)) \<inter>
         set (map startIndex (pattern_matches ty' q content)) = {}"
proof (rule ccontr)
  assume "\<not> ?thesis"
  then obtain m m' where m: "m \<in> set (pattern_matches ty p content)"
      "m' \<in> set (pattern_matches ty' q content)" "startIndex m = startIndex m'"
    by auto
  from pattern_matches_hit [OF m(1)] obtain full cap where
    h: "(startIndex m, full, cap) \<in> set (exec_all p 0 content)" by blast
  from pattern_matches_hit [OF m(2)] m(3) obtain full' cap' where
    h': "(startIndex m, full', cap') \<in> set (exec_all q 0 content)" by auto
  from exec_all_accepts [OF all_patterns_never_empty [OF assms(1)] h]
    exec_all_accepts [OF all_patterns_never_empty [OF assms(2)] h']
  have "accepts p (drop (startIndex m) content)" "accepts q (drop (startIndex m) content)" by simp_all
  from patterns_exclusive [OF assms(1,2) this] assms(3) show False by simp
qed

lemma distinct_concat_map:
  assumes "distinct (map g ps)" "\<forall>p \<in> set ps. distinct (f p)"
    "\<forall>p \<in> set ps. \<forall>q \<in> set ps. g p \<noteq> g q \<longrightarrow> set (f p) \<inter> set (f q) = {}"
  shows "distinct (concat (map f ps))"
  using assms
proof (induction ps)
  case Nil
  show ?case by simp
next
  case (Cons p ps)
  have "set (f p) \<inter> set (f q) = {}" if "q \<in> set ps" for q
  proof -
    from Cons.prems(1) that have "g p \<noteq> g q" by auto
    with Cons.prems(3) that show ?thesis by simp
  qed
  with Cons show ?case by auto
qed

lemma allMatches_concat:
  "allMatches content = concat (map (\<lambda>(ty, p). pattern_matches ty p content) typed_patterns)"
  by (simp add: allMatches_def parseES6Imports_def parseCommonJSImports_def parseDynamicImports_def
        typed_patterns_def)

lemma typed_patterns_all: "map snd typed_patterns = all_patterns"
  by (simp add: typed_patterns_def all_patterns_def)

lemma all_patterns_distinct: "distinct all_patterns"
  by code_simp

lemma allMatches_distinct_starts: "distinct (map startIndex (allMatches content))"
proof -
  let ?f = "\<lambda>(ty, p). map startIndex (pattern_matches ty p content)"
  have in_all: "snd tp \<in> set all_patterns" if "tp \<in> set typed_patterns" for tp
    using that typed_patterns_all by (metis image_eqI set_map)
  have "distinct (concat (map ?f typed_patterns))"
  proof (rule distinct_concat_map [where g = snd])
    show "distinct (map snd typed_patterns)"
      by (simp add: typed_patterns_all all_patterns_distinct)
    show "\<forall>tp \<in> set typed_patterns. distinct (?f tp)"
      using in_all all_patterns_never_empty pattern_matches_distinct by (auto simp: case_prod_unfold)
    show "\<forall>tp \<in> set typed_patterns. \<forall>tq \<in> set typed_patterns.
            snd tp \<noteq> snd tq \<longrightarrow> set (?f tp) \<inter> set (?f tq) = {}"
      using in_all pattern_matches_disjoint by (auto simp: case_prod_unfold)
  qed
  moreover have "map startIndex (allMatches content) = concat (map ?f typed_patterns)"
    by (simp add: allMatches_concat map_concat comp_def case_prod_unfold)
  ultimately show ?thesis by simp
qed

lemma trim_keeps_prefix:
  assumes "a \<noteq> []" "\<not> is_space (hd a)" "\<not> is_space (last a)"
  shows "trim (a @ b) = a @ rev (dropWhile is_space (rev b))"
proof -
  from assms(1,2) have front: "dropWhile is_space (a @ b) = a @ b"
    by (cases a) simp_all
  have tail: "dropWhile is_space (rev b @ rev a) = dropWhile is_space (rev b) @ rev a"
  proof (cases "\<forall>x \<in> set (rev b). is_space x")
    case True
    then have "dropWhile is_space (rev b @ rev a) = dropWhile is_space (rev a)"
      by (intro dropWhile_append2) blast
    moreover from assms(1,3) have "dropWhile is_space (rev a) = rev a"
      by (cases "rev a") (simp_all add: last_rev [symmetric] hd_rev)
    moreover from True have "dropWhile is_space (rev b) = []" by simp
    ultimately show ?thesis by simp
  next
    case False
    then obtain x where "x \<in> set (rev b)" "\<not> is_space x" by blast
    then show ?thesis by (rule dropWhile_append1)
  qed
  show ?thesis by (simp add: trim_def front tail)
qed

lemma trim_relative: "is_relative_import p \<Longrightarrow> is_relative_import (trim p)"
proof -
  assume "is_relative_import p"
  then consider (dot) b where "p = ''./'' @ b" | (dotdot) b where "p = ''../'' @ b"
    by (auto simp: is_relative_import_def startsWith_def prefix_def)
  then show ?thesis
  proof cases
    case dot
    have "trim (''./'' @ b) = ''./'' @ rev (dropWhile is_space (rev b))"
      by (rule trim_keeps_prefix) (simp_all add: is_space_def)
    with dot show ?thesis by (simp add: is_relative_import_def startsWith_def)
  next
    case dotdot
    have "trim (''../'' @ b) = ''../'' @ rev (dropWhile is_space (rev b))"
      by (rule trim_keeps_prefix) (simp_all add: is_space_def)
    with dotdot show ?thesis by (simp add: is_relative_import_def startsWith_def)
  qed
qed

lemma validateImportPath_trim: "validateImportPath p = Some v \<Longrightarrow> v = trim p"
  by (auto simp: validateImportPath_def Let_def split: if_splits)

lemma validMatches_iff:
  "m \<in> set (validMatches content) \<longleftrightarrow>
     (\<exists>a \<in> set (allMatches content). \<exists>v. validateImportPath (importPath a) = Some v \<and>
        m = a\<lparr> importPath := v \<rparr>)"
  unfolding validMatches_def map_filter_def
  by (force split: option.splits)

lemma validMatches_starts:
  "map startIndex (validMatches content) =
     map startIndex (filter (\<lambda>m. validateImportPath (importPath m) \<noteq> None) (allMatches content))"
  unfolding validMatches_def map_filter_def
  by (auto simp: comp_def split: option.splits)

lemma sortedMatches_distinct_starts: "distinct (map startIndex (sortedMatches content))"
proof -
  have "distinct (map startIndex (validMatches content))"
    unfolding validMatches_starts using allMatches_distinct_starts by (rule distinct_map_filter)
  then show ?thesis by (simp add: sortedMatches_def distinct_map)
qed

lemma unique_after_id:
  "distinct (map startIndex (prev # ms)) \<Longrightarrow> unique_after prev ms = ms"
proof (induction ms arbitrary: prev)
  case Nil
  show ?case by simp
next
  case (Cons m ms)
  from Cons.prems have "startIndex m \<noteq> startIndex prev" "distinct (map startIndex (m # ms))" by auto
  with Cons.IH [of m] show ?case by simp
qed

lemma uniqueMatches_id: "distinct (map startIndex ms) \<Longrightarrow> uniqueMatches ms = ms"
  by (cases ms) (simp_all add: unique_after_id)

lemma exec_all_empty: "exec_all p i [] = []"
  by simp

lemma sortedMatches_empty: "sortedMatches [] = []"
  by (simp add: sortedMatches_def validMatches_def allMatches_def parseES6Imports_def
        parseCommonJSImports_def parseDynamicImports_def pattern_matches_def map_filter_simps)

lemma findImports_sortedMatches: "findImports content = sortedMatches content"
  by (simp add: findImports_def sortedMatches_empty uniqueMatches_id sortedMatches_distinct_starts)

lemma distinct_key_filter:
  "distinct (map f xs) \<Longrightarrow> length (filter (\<lambda>x. f x = k) xs) \<le> 1"
proof (induction xs)
  case Nil
  show ?case by simp
next
  case (Cons x xs)
  show ?case
  proof (cases "f x = k")
    case True
    from Cons.prems have "f x \<notin> set (map f xs)" by simp
    then have "\<forall>y \<in> set xs. f y \<noteq> f x" by (metis imageI set_map)
    with True have "filter (\<lambda>y. f y = k) xs = []" by (simp add: filter_empty_conv)
    with True show ?thesis by simp
  next
    case False
    with Cons show ?thesis by simp
  qed
qed

lemma findImports_relative:
  assumes "m \<in> set (findImports content)"
  shows "is_relative_import (importPath m)"
proof -
  from assms have "m \<in> set (validMatches content)"
    by (simp add: findImports_sortedMatches sortedMatches_def)
  then obtain a v where a: "a \<in> set (allMatches content)" "validateImportPath (importPath a) = Some v"
      "m = a\<lparr> importPath := v \<rparr>"
    unfolding validMatches_iff by blast
  from a(1) obtain ty p where "a \<in> set (pattern_matches ty p content)"
    by (auto simp: allMatches_concat)
  from pattern_matches_hit [OF this] have "is_relative_import (importPath a)" by blast
  from trim_relative [OF this] validateImportPath_trim [OF a(2)] a(3) show ?thesis by simp
qed

lemma hit_in_findImports:
  assumes tp: "(ty, p) \<in> set typed_patterns" and hit: "(i, full, cap) \<in> set (exec_all p 0 content)"
  shows "(\<exists>m \<in> set (findImports content).
            startIndex m = i \<and> fullMatch m = full \<and> importType m = ty \<and> importPath m = trim cap)
         \<longleftrightarrow> (is_relative_import cap \<and> validateImportPath cap \<noteq> None)"
proof
  assume "is_relative_import cap \<and> validateImportPath cap \<noteq> None"
  then have rel: "is_relative_import cap" and v: "validateImportPath cap = Some (trim cap)"
    using validateImportPath_trim by auto
  let ?a = "\<lparr> fullMatch = full, importPath = cap, startIndex = i, endIndex = i + length full,
               importType = ty \<rparr>"
  from hit rel have "?a \<in> set (pattern_matches ty p content)"
    by (force simp: pattern_matches_def is_relative_import_def)
  with tp have "?a \<in> set (allMatches content)" by (force simp: allMatches_concat)
  with v have "?a\<lparr> importPath := trim cap \<rparr> \<in> set (validMatches content)"
    unfolding validMatches_iff by force
  then have "?a\<lparr> importPath := trim cap \<rparr> \<in> set (findImports content)"
    by (simp add: findImports_sortedMatches sortedMatches_def)
  then show "\<exists>m \<in> set (findImports content).
            startIndex m = i \<and> fullMatch m = full \<and> importType m = ty \<and> importPath m = trim cap"
    by force
next
  assume "\<exists>m \<in> set (findImports content).
            startIndex m = i \<and> fullMatch m = full \<and> importType m = ty \<and> importPath m = trim cap"
  then obtain m where m: "m \<in> set (findImports content)" "startIndex m = i" by blast
  then have "m \<in> set (validMatches content)"
    by (simp add: findImports_sortedMatches sortedMatches_def)
  then obtain a v where a: "a \<in> set (allMatches content)" "validateImportPath (importPath a) = Some v"
      "m = a\<lparr> importPath := v \<rparr>"
    unfolding validMatches_iff by blast
  from a(1) obtain ty' p' where tp': "(ty', p') \<in> set typed_patterns"
      and ap: "a \<in> set (pattern_matches ty' p' content)"
    by (auto simp: allMatches_concat)
  from pattern_matches_hit [OF ap] obtain full' cap' where
    h': "(startIndex a, full', cap') \<in> set (exec_all p' 0 content)" "is_relative_import cap'"
      "importPath a = cap'"
    by blast
  from a(3) m(2) have ia: "startIndex a = i" by simp
  have pin: "p \<in> set all_patterns" "p' \<in> set all_patterns"
    using tp tp' typed_patterns_all by (metis image_eqI set_map snd_conv)+
  from exec_all_accepts [OF all_patterns_never_empty [OF pin(1)] hit]
    exec_all_accepts [OF all_patterns_never_empty [OF pin(2)] h'(1) [unfolded ia]]
  have "accepts p (drop i content)" "accepts p' (drop i content)" by simp_all
  from patterns_exclusive [OF pin this] have pp: "p = p'" .
  from exec_all_index_unique [OF all_patterns_never_empty [OF pin(1)] hit h'(1) [unfolded ia pp [symmetric]]]
  have "cap = cap'" by simp
  with h'(2,3) a(2) show "is_relative_import cap \<and> validateImportPath cap \<noteq> None" by simp
qed

text \<open>
  Claim C4, as stated (a literal is captured iff it is relative). In the content
  \<open>import './a\<newline>b';\<close>, with a line feed inside the quotes, the side-effect pattern matches at
  offset 0 and captures a literal that starts with \<open>./\<close>; \<open>validateImportPath\<close> rejects it
  because it contains a line break, and \<open>findImports\<close> returns nothing.
\<close>

theorem findImports_line_break_counterexample:
  "exec_all ES6_IMPORT_SIDE_EFFECT 0 line_break_content =
     [(0, ''import './a'' @ [CHR 0x0A] @ ''b'' @ [CHR 0x27], ''./a'' @ [CHR 0x0A] @ ''b'')] \<and>
   is_relative_import (''./a'' @ [CHR 0x0A] @ ''b'') \<and>
   findImports line_break_content = []"
  by code_simp

text \<open>
  Claim C4, amended. Every match that \<open>findImports\<close> returns has an import path that starts
  with \<open>./\<close> or \<open>../\<close>. For each of the seven patterns and each of its matches in the content,
  the output has an entry for that match (same start offset, statement text and kind, with
  the captured literal trimmed) iff the captured literal starts with \<open>./\<close> or \<open>../\<close> and passes
  \<open>validateImportPath\<close>, that is, its trimmed text contains no line break. The bare specifier
  of \<open>import React from 'react';\<close> is not captured.
\<close>

theorem findImports_relative_literals:
  "(\<forall>m \<in> set (findImports content). is_relative_import (importPath m)) \<and>
   (\<forall>(ty, p) \<in> set typed_patterns. \<forall>(i, full, cap) \<in> set (exec_all p 0 content).
      (\<exists>m \<in> set (findImports content).
         startIndex m = i \<and> fullMatch m = full \<and> importType m = ty \<and> importPath m = trim cap)
      \<longleftrightarrow> (is_relative_import cap \<and> validateImportPath cap \<noteq> None)) \<and>
   findImports ''import React from 'react';'' = []"
proof -
  have a: "\<forall>m \<in> set (findImports content). is_relative_import (importPath m)"
    using findImports_relative by blast
  have b: "\<forall>(ty, p) \<in> set typed_patterns. \<forall>(i, full, cap) \<in> set (exec_all p 0 content).
      (\<exists>m \<in> set (findImports content).
         startIndex m = i \<and> fullMatch m = full \<and> importType m = ty \<and> importPath m = trim cap)
      \<longleftrightarrow> (is_relative_import cap \<and> validateImportPath cap \<noteq> None)"
  proof -
    have "(\<exists>m \<in> set (findImports content).
         startIndex m = i \<and> fullMatch m = full \<and> importType m = ty \<and> importPath m = trim cap)
      \<longleftrightarrow> (is_relative_import cap \<and> validateImportPath cap \<noteq> None)"
      if "(ty, p) \<in> set typed_patterns" "(i, full, cap) \<in> set (exec_all p 0 content)"
      for ty p i full cap
      using that by (rule hit_in_findImports)
    then show ?thesis by fast
  qed
  have c: "findImports ''import React from 'react';'' = []" by code_simp
  from a b c show ?thesis by blast
qed

theorem findImports_relative_literals_witness:
  "(es6, ES6_NAMED_IMPORT) \<in> set typed_patterns \<and>
   (0, ''import { Component } from './component'' @ [CHR 0x27], ''./component'')
      \<in> set (exec_all ES6_NAMED_IMPORT 0 sample_content) \<and>
   is_relative_import ''./component'' \<and> validateImportPath ''./component'' = Some ''./component'' \<and>
   (\<exists>m \<in> set (findImports sample_content).
      startIndex m = 0 \<and> fullMatch m = ''import { Component } from './component'' @ [CHR 0x27] \<and>
      importType m = es6 \<and> importPath m = ''./component'') \<and>
   (es6, ES6_DEFAULT_IMPORT) \<in> set typed_patterns \<and>
   (41, ''import React from 'react'' @ [CHR 0x27], ''react'') \<in> set (exec_all ES6_DEFAULT_IMPORT 0 sample_content) \<and>
   \<not> is_relative_import ''react'' \<and>
   \<not> (\<exists>m \<in> set (findImports sample_content). startIndex m = 41)"
proof -
  let ?full = "''import { Component } from './component'' @ [CHR 0x27]"
  have tp: "(es6, ES6_NAMED_IMPORT) \<in> set typed_patterns" "(es6, ES6_DEFAULT_IMPORT) \<in> set typed_patterns"
    by (simp_all add: typed_patterns_def)
  have hit: "(0, ?full, ''./component'') \<in> set (exec_all ES6_NAMED_IMPORT 0 sample_content)"
    by code_simp
  have hit2: "(41, ''import React from 'react'' @ [CHR 0x27], ''react'') \<in> set (exec_all ES6_DEFAULT_IMPORT 0 sample_content)"
    by code_simp
  have rel: "is_relative_import ''./component''" "\<not> is_relative_import ''react''" by code_simp+
  have val: "validateImportPath ''./component'' = Some ''./component''" by code_simp
  have tr: "trim ''./component'' = ''./component''" by code_simp
  have none: "\<not> (\<exists>m \<in> set (findImports sample_content). startIndex m = 41)" by code_simp
  from findImports_relative_literals [of sample_content]
  have "\<forall>(ty, p) \<in> set typed_patterns. \<forall>(i, full, cap) \<in> set (exec_all p 0 sample_content).
      (\<exists>m \<in> set (findImports sample_content).
         startIndex m = i \<and> fullMatch m = full \<and> importType m = ty \<and> importPath m = trim cap)
      \<longleftrightarrow> (is_relative_import cap \<and> validateImportPath cap \<noteq> None)"
    by blast
  with tp(1) hit have "(\<exists>m \<in> set (findImports sample_content).
         startIndex m = 0 \<and> fullMatch m = ?full \<and> importType m = es6 \<and> importPath m = trim ''./component'')
      \<longleftrightarrow> (is_relative_import ''./component'' \<and> validateImportPath ''./component'' \<noteq> None)"
    by fast
  with rel(1) val tr have "\<exists>m \<in> set (findImports sample_content).
      startIndex m = 0 \<and> fullMatch m = ?full \<and> importType m = es6 \<and> importPath m = ''./component''"
    by simp
  with tp hit hit2 rel val none show ?thesis by blast
qed

text \<open>
  Claim C5. The list that \<open>findImports\<close> returns is sorted ascending by start offset and has no
  two entries with the same start offset and import path; of the entries of the sorted
  list of valid matches that share a start offset and literal, the first one is kept, and
  only that one.
\<close>

theorem findImports_sorted_unique:
  "sorted (map startIndex (findImports content)) \<and>
   distinct (map match_key (findImports content)) \<and>
   (\<forall>k. filter (\<lambda>m. match_key m = k) (findImports content) =
        take 1 (filter (\<lambda>m. match_key m = k) (sortedMatches content)))"
proof -
  have s: "sorted (map startIndex (findImports content))"
    by (simp add: findImports_sortedMatches sortedMatches_def)
  have "distinct (map fst (map match_key (sortedMatches content)))"
    using sortedMatches_distinct_starts [of content] by (simp add: comp_def match_key_def)
  then have d: "distinct (map match_key (sortedMatches content))"
    using distinct_map [of fst "map match_key (sortedMatches content)"] by blast
  have "filter (\<lambda>m. match_key m = k) (sortedMatches content) =
        take 1 (filter (\<lambda>m. match_key m = k) (sortedMatches content))" for k
    using distinct_key_filter [OF d, of k] by simp
  with s d show ?thesis by (simp add: findImports_sortedMatches)
qed

end
